theory Spec2Isabelle
  imports Main "HOL-Library.Word"
begin

section \<open>PDF\_DL\_Website\_App: data model\<close>

text \<open>
  The program is one Python module with three functions: \<open>download_pdf\<close>,
  \<open>scrape_pdf_links\<close> and \<open>main\<close>. Everything they do besides computing on strings
  goes through collaborators (a browser driver, an HTTP client, the file system, the
  console, the clock). The collaborators are parameters of the model: a record says what
  each of their calls answers, and the functions thread a state that records, in order,
  every call made and the content of the files written.
\<close>

subsection \<open>Exceptions\<close>

text \<open>
  A raised Python exception is a value. The only handler of the module is
  \<open>except Exception\<close>, so the model keeps the one distinction that handler makes:
  \<open>Exception n\<close> is an instance of the class \<open>Exception\<close> (a \<open>requests\<close> error, an
  \<open>OSError\<close>, a \<open>TimeoutException\<close>, ...), \<open>BaseException n\<close> is an instance of
  \<open>BaseException\<close> outside \<open>Exception\<close> (\<open>KeyboardInterrupt\<close>, \<open>SystemExit\<close>).
  The string is the class name.
\<close>

datatype py_exn = Exception string | BaseException string

fun is_Exception :: "py_exn \<Rightarrow> bool" where
  "is_Exception (Exception n) = True"
| "is_Exception (BaseException n) = False"

subsection \<open>Events and state\<close>

type_synonym bytes = "8 word list"

text \<open>What \<open>print\<close> is called with: one constructor for each f-string of the module.\<close>

datatype message =
    Downloaded string
  | Forbidden string int int
  | Failed int
  | Error py_exn
  | FoundHref string
  | ValidLink string
  | FoundHeader
  | Line string
  | NoLinks

datatype event =
    is_Request: Request string
  | is_Sleep: Sleep nat
  | is_Open: Open string
  | is_Write: Write string bytes
  | is_Print: Print message
  | Launch
  | Navigate string
  | WaitAnchors
  | FindAnchors
  | is_Quit: Quit

record state =
  trace :: "event list"
  fs :: "string \<rightharpoonup> bytes"

definition emit :: "event \<Rightarrow> state \<Rightarrow> state" where
  "emit ev s = s\<lparr>trace := trace s @ [ev]\<rparr>"

definition requests_made :: "state \<Rightarrow> nat" where
  "requests_made s = length (filter is_Request (trace s))"

definition sleeps :: "event list \<Rightarrow> nat list" where
  "sleeps tr = concat (map (\<lambda>ev. case ev of Sleep d \<Rightarrow> [d] | _ \<Rightarrow> []) tr)"

definition touches_disk :: "event \<Rightarrow> bool" where
  "touches_disk ev = (is_Open ev \<or> is_Write ev)"

section \<open>Strings\<close>

text \<open>
  The hrefs are URL serialisations, which are ASCII; \<open>str.lower\<close> is modelled on ASCII
  letters and leaves every other character as it is.
\<close>

definition lower_char :: "char \<Rightarrow> char" where
  "lower_char c =
     (case map_of (zip ''ABCDEFGHIJKLMNOPQRSTUVWXYZ'' ''abcdefghijklmnopqrstuvwxyz'') c of
        Some l \<Rightarrow> l
      | None \<Rightarrow> c)"

definition lower :: "string \<Rightarrow> string" where
  "lower s = map lower_char s"

text \<open>\<open>sub in s\<close> on two strings: \<open>sub\<close> occurs in \<open>s\<close> as a contiguous block.\<close>

fun starts_with :: "string \<Rightarrow> string \<Rightarrow> bool" where
  "starts_with [] s = True"
| "starts_with (x # xs) [] = False"
| "starts_with (x # xs) (y # ys) = (x = y \<and> starts_with xs ys)"

fun contains :: "string \<Rightarrow> string \<Rightarrow> bool" where
  "contains sub [] = (sub = [])"
| "contains sub (c # cs) = (starts_with sub (c # cs) \<or> contains sub cs)"

text \<open>
  The value of \<open>link.get_attribute('href')\<close> is \<open>None\<close> or a string. Python is dynamically
  typed, so the operations the loop applies to it are modelled on that union, with the
  error each raises on \<open>None\<close>; \<open>str_of\<close> is the text of the value, as an f-string
  renders it.
\<close>

definition str_of :: "string option \<Rightarrow> string" where
  "str_of href = (case href of None \<Rightarrow> ''None'' | Some h \<Rightarrow> h)"

definition truthy :: "string option \<Rightarrow> bool" where
  "truthy href = (case href of None \<Rightarrow> False | Some h \<Rightarrow> h \<noteq> [])"

definition str_lower :: "string option \<Rightarrow> py_exn + string" where
  "str_lower href =
     (case href of None \<Rightarrow> Inl (Exception ''AttributeError'') | Some h \<Rightarrow> Inr (lower h))"

definition str_in :: "string \<Rightarrow> string option \<Rightarrow> py_exn + bool" where
  "str_in sub href =
     (case href of None \<Rightarrow> Inl (Exception ''TypeError'') | Some h \<Rightarrow> Inr (contains sub h))"

text \<open>\<open>s.split(sep)\<close> for a one-character separator, and \<open>xs[-1]\<close>.\<close>

fun split_from :: "char \<Rightarrow> string \<Rightarrow> string \<Rightarrow> string list" where
  "split_from sep cur [] = [cur]"
| "split_from sep cur (x # xs) =
     (if x = sep then cur # split_from sep [] xs else split_from sep (cur @ [x]) xs)"

definition split_on :: "char \<Rightarrow> string \<Rightarrow> string list" where
  "split_on sep s = split_from sep [] s"

definition last_item :: "'a list \<Rightarrow> py_exn + 'a" where
  "last_item xs = (if xs = [] then Inl (Exception ''IndexError'') else Inr (last xs))"

section \<open>scrape\_pdf\_links\<close>

text \<open>
  The browser as the function sees it: whether \<open>driver.get\<close> and the wait raise for a
  URL, and the \<open>href\<close> attribute of each anchor of the page, in document order.
\<close>

record browser =
  navigate :: "string \<Rightarrow> py_exn option"
  wait_anchors :: "string \<Rightarrow> py_exn option"
  anchors :: "string \<Rightarrow> string option list"

text \<open>
  The test of line 94, \<open>'.pdf' in href.lower() and 'consumereports.org' not in href\<close>,
  evaluated left to right with the short-circuit of \<open>and\<close>.
\<close>

definition is_pdf_link :: "string option \<Rightarrow> py_exn + bool" where
  "is_pdf_link href =
     (case str_lower href of
        Inl e \<Rightarrow> Inl e
      | Inr l \<Rightarrow>
          if contains ''.pdf'' l then
            (case str_in ''consumereports.org'' href of
               Inl e \<Rightarrow> Inl e
             | Inr b \<Rightarrow> Inr (\<not> b))
          else Inr False)"

text \<open>The loop of lines 90 to 96; \<open>pdf_links\<close> is the list built so far.\<close>

fun collect_links :: "string option list \<Rightarrow> string list \<Rightarrow> state \<Rightarrow> (py_exn + string list) \<times> state" where
  "collect_links [] pdf_links s = (Inr pdf_links, s)"
| "collect_links (href # rest) pdf_links s =
     (if truthy href then
        (let s1 = emit (Print (FoundHref (str_of href))) s in
         case is_pdf_link href of
           Inl e \<Rightarrow> (Inl e, s1)
         | Inr ok \<Rightarrow>
             if ok then
               collect_links rest (pdf_links @ [str_of href])
                 (emit (Print (ValidLink (str_of href))) s1)
             else collect_links rest pdf_links s1)
      else collect_links rest pdf_links s)"

text \<open>The loop of lines 99 and 100.\<close>

definition print_links :: "string list \<Rightarrow> state \<Rightarrow> state" where
  "print_links pdf_links s = s\<lparr>trace := trace s @ map (\<lambda>pdf. Print (Line pdf)) pdf_links\<rparr>"

text \<open>The body of the \<open>try\<close>, lines 81 to 102.\<close>

definition scrape_body :: "browser \<Rightarrow> string \<Rightarrow> state \<Rightarrow> (py_exn + string list) \<times> state" where
  "scrape_body b url_to_scrape s =
     (let s1 = emit (Navigate url_to_scrape) s in
      case navigate b url_to_scrape of
        Some e \<Rightarrow> (Inl e, s1)
      | None \<Rightarrow>
          (let s2 = emit WaitAnchors s1 in
           case wait_anchors b url_to_scrape of
             Some e \<Rightarrow> (Inl e, s2)
           | None \<Rightarrow>
               (case collect_links (anchors b url_to_scrape) [] (emit FindAnchors s2) of
                  (Inl e, s3) \<Rightarrow> (Inl e, s3)
                | (Inr pdf_links, s3) \<Rightarrow>
                    (Inr pdf_links, print_links pdf_links (emit (Print FoundHeader) s3)))))"

text \<open>
  The function: the driver is created, the body runs, and the \<open>finally\<close> clause quits the
  driver whatever the body did; the body's result or exception then goes to the caller.
\<close>

definition scrape_pdf_links :: "browser \<Rightarrow> string \<Rightarrow> state \<Rightarrow> (py_exn + string list) \<times> state" where
  "scrape_pdf_links b url_to_scrape s =
     (case scrape_body b url_to_scrape (emit Launch s) of
        (r, s') \<Rightarrow> (r, emit Quit s'))"

section \<open>download\_pdf\<close>

text \<open>
  A response of the HTTP client: its status code, the chunks that
  \<open>iter_content(chunk_size=1024)\<close> yields, in order, and the exception the iteration
  raises after the last of them, if any.
\<close>

record response =
  status_code :: int
  chunks :: "bytes list"
  stream_error :: "py_exn option"

text \<open>
  The network, the disk and the console as the function sees them: what the \<open>n\<close>-th
  call of \<open>requests.get\<close> of the run answers (counted from 0), whether
  \<open>open(path, 'wb')\<close> raises, whether the \<open>k\<close>-th \<open>write\<close> to the file opened at
  \<open>path\<close> raises, and whether the \<open>print\<close> of line 55 raises when it reports the
  exception \<open>e\<close>. That \<open>print\<close> is the one statement of the function outside the
  \<open>try\<close>: what it raises has no handler. The prints of lines 46, 49 and 52 are taken to
  succeed; were one of them to raise, it would be one more exception raised inside the
  \<open>try\<close>.
\<close>

record host =
  transport :: "nat \<Rightarrow> py_exn + response"
  open_file :: "string \<Rightarrow> py_exn option"
  write_file :: "string \<Rightarrow> nat \<Rightarrow> py_exn option"
  print_error :: "py_exn \<Rightarrow> py_exn option"

text \<open>\<open>range(retries)\<close>: empty when \<open>retries\<close> is zero or negative.\<close>

definition range_of :: "int \<Rightarrow> int list" where
  "range_of n = map int [0..<nat n]"

definition append_file :: "string \<Rightarrow> bytes \<Rightarrow> state \<Rightarrow> state" where
  "append_file path chunk s =
     s\<lparr>fs := (fs s)(path \<mapsto> (case fs s path of None \<Rightarrow> chunk | Some old \<Rightarrow> old @ chunk))\<rparr>"

text \<open>
  Lines 43 to 45: the loop over the chunks; \<open>k\<close> counts the writes made so far. An
  empty chunk is skipped.
\<close>

fun write_chunks ::
  "host \<Rightarrow> string \<Rightarrow> bytes list \<Rightarrow> py_exn option \<Rightarrow> nat \<Rightarrow> state \<Rightarrow> (py_exn + unit) \<times> state" where
  "write_chunks h save_path [] err k s =
     (case err of None \<Rightarrow> (Inr (), s) | Some e \<Rightarrow> (Inl e, s))"
| "write_chunks h save_path (chunk # rest) err k s =
     (if chunk \<noteq> [] then
        (case write_file h save_path k of
           Some e \<Rightarrow> (Inl e, s)
         | None \<Rightarrow>
             write_chunks h save_path rest err (Suc k)
               (append_file save_path chunk (emit (Write save_path chunk) s)))
      else write_chunks h save_path rest err k s)"

text \<open>Lines 42 to 45: opening with mode \<open>'wb'\<close> creates the file or empties it.\<close>

definition write_body :: "host \<Rightarrow> string \<Rightarrow> response \<Rightarrow> state \<Rightarrow> (py_exn + unit) \<times> state" where
  "write_body h save_path r s =
     (case open_file h save_path of
        Some e \<Rightarrow> (Inl e, s)
      | None \<Rightarrow>
          write_chunks h save_path (chunks r) (stream_error r) 0
            ((emit (Open save_path) s)\<lparr>fs := (fs s)(save_path \<mapsto> [])\<rparr>))"

text \<open>
  Lines 38 to 53: the loop over \<open>range(retries)\<close>. \<open>return\<close> and \<open>break\<close> both end the
  loop with nothing after it, so both are the result \<open>Inr ()\<close>.
\<close>

fun attempts ::
  "host \<Rightarrow> string \<Rightarrow> string \<Rightarrow> int \<Rightarrow> int list \<Rightarrow> state \<Rightarrow> (py_exn + unit) \<times> state" where
  "attempts h pdf_url save_path retries [] s = (Inr (), s)"
| "attempts h pdf_url save_path retries (attempt # rest) s =
     (let s1 = emit (Request pdf_url) s in
      case transport h (requests_made s) of
        Inl e \<Rightarrow> (Inl e, s1)
      | Inr r \<Rightarrow>
          if status_code r = 200 then
            (case write_body h save_path r s1 of
               (Inl e, s2) \<Rightarrow> (Inl e, s2)
             | (Inr u, s2) \<Rightarrow> (Inr (), emit (Print (Downloaded save_path)) s2))
          else if status_code r = 403 then
            attempts h pdf_url save_path retries rest
              (emit (Sleep 2) (emit (Print (Forbidden pdf_url (attempt + 1) retries)) s1))
          else (Inr (), emit (Print (Failed (status_code r))) s1))"

text \<open>
  The function: the handler of line 54 takes every instance of \<open>Exception\<close> and prints
  it; when that \<open>print\<close> succeeds the function returns \<open>None\<close>, when it raises, its
  exception goes to the caller. An exception that is not an instance of \<open>Exception\<close>
  goes to the caller as it is.
\<close>

definition download_pdf ::
  "host \<Rightarrow> string \<Rightarrow> string \<Rightarrow> int \<Rightarrow> state \<Rightarrow> (py_exn + unit) \<times> state" where
  "download_pdf h pdf_url save_path retries s =
     (case attempts h pdf_url save_path retries (range_of retries) s of
        (Inl e, s') \<Rightarrow>
          if is_Exception e then
            (case print_error h e of
               Some e' \<Rightarrow> (Inl e', s')
             | None \<Rightarrow> (Inr (), emit (Print (Error e)) s'))
          else (Inl e, s')
      | (Inr u, s') \<Rightarrow> (Inr (), s'))"

section \<open>main\<close>

text \<open>
  The directory of line 122, a raw string with backslashes. \<open>os.path.join\<close> belongs to
  the standard library and depends on the platform, so it is a parameter.
\<close>

definition save_dir :: string where
  "save_dir = ''C:'' @ [CHR 0x5C] @ ''Users'' @ [CHR 0x5C] @ ''Cruci'' @ [CHR 0x5C] @ ''source''
     @ [CHR 0x5C] @ ''repos'' @ [CHR 0x5C] @ ''PDF_DL_Website_App''"

text \<open>Line 124, \<open>os.path.join(save_dir, pdf_url.split('/')[-1])\<close>.\<close>

definition pdf_name_of :: "(string \<Rightarrow> string \<Rightarrow> string) \<Rightarrow> string \<Rightarrow> py_exn + string" where
  "pdf_name_of join pdf_url =
     (case last_item (split_on CHR ''/'' pdf_url) of
        Inl e \<Rightarrow> Inl e
      | Inr seg \<Rightarrow> Inr (join save_dir seg))"

text \<open>Lines 123 to 125; the default \<open>retries = 3\<close> is used.\<close>

fun download_each ::
  "host \<Rightarrow> (string \<Rightarrow> string \<Rightarrow> string) \<Rightarrow> string list \<Rightarrow> state \<Rightarrow> (py_exn + unit) \<times> state" where
  "download_each h join [] s = (Inr (), s)"
| "download_each h join (pdf_url # rest) s =
     (case pdf_name_of join pdf_url of
        Inl e \<Rightarrow> (Inl e, s)
      | Inr pdf_name \<Rightarrow>
          (case download_pdf h pdf_url pdf_name 3 s of
             (Inl e, s') \<Rightarrow> (Inl e, s')
           | (Inr u, s') \<Rightarrow> download_each h join rest s'))"

text \<open>The entry point; \<open>url_to_scrape\<close> is what \<open>input\<close> returned.\<close>

definition main ::
  "browser \<Rightarrow> host \<Rightarrow> (string \<Rightarrow> string \<Rightarrow> string) \<Rightarrow> string \<Rightarrow> state \<Rightarrow> (py_exn + unit) \<times> state" where
  "main b h join url_to_scrape s =
     (case scrape_pdf_links b url_to_scrape s of
        (Inl e, s1) \<Rightarrow> (Inl e, s1)
      | (Inr pdf_links, s1) \<Rightarrow>
          if pdf_links \<noteq> [] then download_each h join pdf_links s1
          else (Inr (), emit (Print NoLinks) s1))"

section \<open>Auxiliary definitions for the properties\<close>

text \<open>The test of line 94 on a string.\<close>

definition pdf_ok :: "string \<Rightarrow> bool" where
  "pdf_ok h = (contains ''.pdf'' (lower h) \<and> \<not> contains ''consumereports.org'' h)"

text \<open>Concrete collaborators and a fresh state, used to run the model.\<close>

definition browser_w :: browser where
  "browser_w = \<lparr>navigate = (\<lambda>u. None), wait_anchors = (\<lambda>u. None),
     anchors = (\<lambda>u. map Some [''http://a.org/Report.PDF'', ''http://a.org/index.html'',
                   ''http://consumereports.org/x.pdf'', ''http://b.org/c.pdf?v=2''])\<rparr>"

definition s0 :: state where
  "s0 = \<lparr>trace = [], fs = Map.empty\<rparr>"

definition browser_gaps :: browser where
  "browser_gaps = \<lparr>navigate = (\<lambda>u. None), wait_anchors = (\<lambda>u. None),
     anchors = (\<lambda>u. [None, Some ''http://a.org/a.pdf'', Some [], None])\<rparr>"

definition browser_unreachable :: browser where
  "browser_unreachable = \<lparr>navigate = (\<lambda>u. Some (Exception ''WebDriverException'')),
     wait_anchors = (\<lambda>u. None), anchors = (\<lambda>u. [])\<rparr>"

definition browser_timeout :: browser where
  "browser_timeout = \<lparr>navigate = (\<lambda>u. None),
     wait_anchors = (\<lambda>u. Some (Exception ''TimeoutException'')), anchors = (\<lambda>u. [])\<rparr>"

text \<open>Hosts for runs of \<open>download_pdf\<close>.\<close>

definition ok_response :: response where
  "ok_response = \<lparr>status_code = 200, chunks = [[1, 2], [], [3]], stream_error = None\<rparr>"

definition host_ok :: host where
  "host_ok = \<lparr>transport = (\<lambda>n. Inr ok_response), open_file = (\<lambda>p. None),
     write_file = (\<lambda>p k. None),
     print_error = (\<lambda>e. None)\<rparr>"

definition host_500 :: host where
  "host_500 = \<lparr>transport = (\<lambda>n. Inr \<lparr>status_code = 500, chunks = [[7]], stream_error = None\<rparr>),
     open_file = (\<lambda>p. None), write_file = (\<lambda>p k. None),
     print_error = (\<lambda>e. None)\<rparr>"

text \<open>
  A host that answers 403 twice and then 200, and hosts that always refuse or fail;
  \<open>host_mute\<close> has a console that cannot encode the message of line 55.
\<close>

definition forbidden_response :: response where
  "forbidden_response = \<lparr>status_code = 403, chunks = [], stream_error = None\<rparr>"

definition host_403_403_200 :: host where
  "host_403_403_200 =
     \<lparr>transport = (\<lambda>n. if n < 2 then Inr forbidden_response else Inr ok_response),
      open_file = (\<lambda>p. None), write_file = (\<lambda>p k. None),
      print_error = (\<lambda>e. None)\<rparr>"

definition host_forbidden :: host where
  "host_forbidden = \<lparr>transport = (\<lambda>n. Inr forbidden_response), open_file = (\<lambda>p. None),
     write_file = (\<lambda>p k. None),
     print_error = (\<lambda>e. None)\<rparr>"

definition host_down :: host where
  "host_down = \<lparr>transport = (\<lambda>n. Inl (Exception ''ConnectionError'')), open_file = (\<lambda>p. None),
     write_file = (\<lambda>p k. None),
     print_error = (\<lambda>e. None)\<rparr>"

definition host_mute :: host where
  "host_mute = \<lparr>transport = (\<lambda>n. Inl (Exception ''ConnectionError'')), open_file = (\<lambda>p. None),
     write_file = (\<lambda>p k. None),
     print_error = (\<lambda>e. Some (Exception ''UnicodeEncodeError''))\<rparr>"

definition host_interrupted :: host where
  "host_interrupted = \<lparr>transport = (\<lambda>n. Inl (BaseException ''KeyboardInterrupt'')),
     open_file = (\<lambda>p. None), write_file = (\<lambda>p k. None),
     print_error = (\<lambda>e. None)\<rparr>"

text \<open>
  The final path segment of a URL in the words of the specification: what follows the
  last \<open>/\<close>, or the whole string when there is none.
\<close>

definition final_segment :: "string \<Rightarrow> string" where
  "final_segment url = rev (takeWhile (\<lambda>c. c \<noteq> CHR ''/'') (rev url))"

text \<open>
  The events of one call \<open>download_pdf(pdf_url, pdf_name)\<close> of the entry point: a request
  for \<open>pdf_url\<close> first, then only requests for \<open>pdf_url\<close>, sleeps, messages, and openings
  and writes of \<open>pdf_name\<close>.
\<close>

definition event_of :: "string \<Rightarrow> string \<Rightarrow> event \<Rightarrow> bool" where
  "event_of pdf_url pdf_name ev =
     (case ev of
        Request u \<Rightarrow> u = pdf_url
      | Sleep d \<Rightarrow> True
      | Open p \<Rightarrow> p = pdf_name
      | Write p c \<Rightarrow> p = pdf_name
      | Print m \<Rightarrow> True
      | _ \<Rightarrow> False)"

definition serves :: "string \<Rightarrow> string \<Rightarrow> event list \<Rightarrow> bool" where
  "serves pdf_url pdf_name evs =
     (case evs of
        [] \<Rightarrow> False
      | ev # rest \<Rightarrow> ev = Request pdf_url \<and> list_all (event_of pdf_url pdf_name) rest)"

text \<open>A page with two links, and the join of \<open>ntpath\<close> on a directory and a plain name.\<close>

definition browser_two :: browser where
  "browser_two = \<lparr>navigate = (\<lambda>u. None), wait_anchors = (\<lambda>u. None),
     anchors = (\<lambda>u. [Some ''http://a.org/d/x.pdf'', Some ''http://a.org/y.pdf''])\<rparr>"

definition join_backslash :: "string \<Rightarrow> string \<Rightarrow> string" where
  "join_backslash dir name = dir @ [CHR 0x5C] @ name"

text \<open>
  What a call can do once a response has status 200: open and write the file, print.
\<close>

definition disk_or_print :: "event \<Rightarrow> bool" where
  "disk_or_print ev = (touches_disk ev \<or> is_Print ev)"

section \<open>Properties of the string operations\<close>

lemma starts_with_iff: "starts_with sub s \<longleftrightarrow> (\<exists>q. s = sub @ q)"
  by (induction sub s rule: starts_with.induct) auto

lemma contains_iff: "contains sub s \<longleftrightarrow> (\<exists>p q. s = p @ sub @ q)"
proof (induction s)
  case Nil
  then show ?case by auto
next
  case (Cons c cs)
  show ?case
  proof
    assume "contains sub (c # cs)"
    then consider "starts_with sub (c # cs)" | "contains sub cs" by auto
    then show "\<exists>p q. c # cs = p @ sub @ q"
    proof cases
      case 1
      then obtain q where "c # cs = sub @ q" by (auto simp: starts_with_iff)
      then have "c # cs = [] @ sub @ q" by simp
      then show ?thesis by blast
    next
      case 2
      then obtain p q where "cs = p @ sub @ q" using Cons.IH by auto
      then have "c # cs = (c # p) @ sub @ q" by simp
      then show ?thesis by blast
    qed
  next
    assume "\<exists>p q. c # cs = p @ sub @ q"
    then obtain p q where pq: "c # cs = p @ sub @ q" by blast
    show "contains sub (c # cs)"
    proof (cases p)
      case Nil
      with pq have "starts_with sub (c # cs)" by (auto simp: starts_with_iff)
      then show ?thesis by simp
    next
      case (Cons a p')
      with pq have "cs = p' @ sub @ q" by simp
      then have "contains sub cs" using Cons.IH by blast
      then show ?thesis by simp
    qed
  qed
qed

section \<open>Properties of scrape\_pdf\_links\<close>

lemma is_pdf_link_Some: "is_pdf_link (Some h) = Inr (pdf_ok h)"
  by (simp add: is_pdf_link_def str_lower_def str_in_def pdf_ok_def)

lemma collect_links_result:
  "fst (collect_links hrefs pdf_links s) =
     Inr (pdf_links @ filter pdf_ok (concat (map (\<lambda>href. case href of None \<Rightarrow> [] | Some h \<Rightarrow> [h]) hrefs)))"
proof (induction hrefs arbitrary: pdf_links s)
  case Nil
  then show ?case by simp
next
  case (Cons href rest)
  show ?case
  proof (cases href)
    case None
    then show ?thesis using Cons.IH by (simp add: truthy_def)
  next
    case (Some h)
    show ?thesis
    proof (cases "h = []")
      case True
      have "\<not> pdf_ok []" by (simp add: pdf_ok_def lower_def)
      with True Some show ?thesis using Cons.IH by (simp add: truthy_def)
    next
      case False
      with Some show ?thesis using Cons.IH
        by (simp add: truthy_def is_pdf_link_Some str_of_def Let_def)
    qed
  qed
qed

lemma collect_links_trace:
  "\<exists>mid. trace (snd (collect_links hrefs pdf_links s)) = trace s @ mid \<and> (\<forall>ev\<in>set mid. is_Print ev)"
proof (induction hrefs arbitrary: pdf_links s)
  case Nil
  then show ?case by simp
next
  case (Cons href rest)
  show ?case
  proof (cases "truthy href")
    case False
    then show ?thesis using Cons.IH by simp
  next
    case True
    let ?s1 = "emit (Print (FoundHref (str_of href))) s"
    show ?thesis
    proof (cases "is_pdf_link href")
      case (Inl e)
      with True show ?thesis by (simp add: emit_def)
    next
      case (Inr ok)
      show ?thesis
      proof (cases ok)
        case True
        let ?s2 = "emit (Print (ValidLink (str_of href))) ?s1"
        from Cons.IH [of "pdf_links @ [str_of href]" ?s2]
        obtain mid where "trace (snd (collect_links rest (pdf_links @ [str_of href]) ?s2)) = trace ?s2 @ mid"
          and "\<forall>ev\<in>set mid. is_Print ev" by blast
        then have "trace (snd (collect_links (href # rest) pdf_links s)) =
            trace s @ ([Print (FoundHref (str_of href)), Print (ValidLink (str_of href))] @ mid)
          \<and> (\<forall>ev\<in>set ([Print (FoundHref (str_of href)), Print (ValidLink (str_of href))] @ mid). is_Print ev)"
          using \<open>truthy href\<close> Inr True by (simp add: emit_def)
        then show ?thesis by blast
      next
        case False
        from Cons.IH [of pdf_links ?s1]
        obtain mid where "trace (snd (collect_links rest pdf_links ?s1)) = trace ?s1 @ mid"
          and "\<forall>ev\<in>set mid. is_Print ev" by blast
        then have "trace (snd (collect_links (href # rest) pdf_links s)) =
            trace s @ ([Print (FoundHref (str_of href))] @ mid)
          \<and> (\<forall>ev\<in>set ([Print (FoundHref (str_of href))] @ mid). is_Print ev)"
          using \<open>truthy href\<close> Inr False by (simp add: emit_def)
        then show ?thesis by blast
      qed
    qed
  qed
qed

lemma collect_links_skip:
  "collect_links hrefs pdf_links s = collect_links (filter truthy hrefs) pdf_links s"
  by (induction hrefs arbitrary: pdf_links s) (auto simp: Let_def split: sum.splits)

lemma pdf_ok_iff:
  "pdf_ok h \<longleftrightarrow> (\<exists>p q. lower h = p @ ''.pdf'' @ q) \<and> \<not> (\<exists>p q. h = p @ ''consumereports.org'' @ q)"
  unfolding pdf_ok_def contains_iff ..

lemma concat_Some: "concat (map (\<lambda>href. case href of None \<Rightarrow> [] | Some h \<Rightarrow> [h]) (map Some hrefs)) = hrefs"
  by (induction hrefs) auto

lemma scrape_body_ok:
  assumes "navigate b url = None" "wait_anchors b url = None"
  shows "fst (scrape_body b url s) = fst (collect_links (anchors b url) [] (emit FindAnchors (emit WaitAnchors (emit (Navigate url) s))))"
  using assms by (simp add: scrape_body_def Let_def split: prod.splits sum.splits)

text \<open>
  C1. When navigation and the wait succeed and the anchors of the page carry the hrefs
  \<open>hrefs\<close>, the scraper returns exactly the hrefs whose lowercase form contains
  \<open>.pdf\<close> and whose raw form does not contain \<open>consumereports.org\<close>, in the order
  of the input.
\<close>

theorem link_filter_exact:
  assumes "navigate b url = None" and "wait_anchors b url = None"
    and "anchors b url = map Some hrefs"
  shows "fst (scrape_pdf_links b url s) =
     Inr (filter (\<lambda>h. (\<exists>p q. lower h = p @ ''.pdf'' @ q)
                      \<and> \<not> (\<exists>p q. h = p @ ''consumereports.org'' @ q)) hrefs)"
proof -
  have "fst (scrape_pdf_links b url s) = fst (scrape_body b url (emit Launch s))"
    by (simp add: scrape_pdf_links_def split: prod.splits)
  also have "\<dots> = Inr (filter pdf_ok hrefs)"
    using assms by (simp add: scrape_body_ok collect_links_result concat_Some del: map_map)
  finally show ?thesis by (simp add: pdf_ok_iff [abs_def])
qed

theorem link_filter_exact_witness:
  "navigate browser_w ''http://a.org'' = None \<and> wait_anchors browser_w ''http://a.org'' = None
   \<and> fst (scrape_pdf_links browser_w ''http://a.org'' s0) =
       Inr [''http://a.org/Report.PDF'', ''http://b.org/c.pdf?v=2'']"
proof -
  have nav: "navigate browser_w ''http://a.org'' = None"
    and wait: "wait_anchors browser_w ''http://a.org'' = None"
    and page: "anchors browser_w ''http://a.org'' =
      map Some [''http://a.org/Report.PDF'', ''http://a.org/index.html'',
        ''http://consumereports.org/x.pdf'', ''http://b.org/c.pdf?v=2'']"
    by (simp_all add: browser_w_def)
  show ?thesis
    using link_filter_exact [OF nav wait page, of s0] nav wait
    unfolding contains_iff [symmetric]
    by (simp add: lower_def lower_char_def)
qed

lemma collect_links_members:
  "fst (collect_links hrefs pdf_links s) = Inr links \<Longrightarrow>
     \<exists>new. links = pdf_links @ new \<and> [] \<notin> set new \<and> (\<forall>l\<in>set new. Some l \<in> set hrefs)"
proof -
  let ?strs = "concat (map (\<lambda>href. case href of None \<Rightarrow> [] | Some h \<Rightarrow> [h]) hrefs)"
  assume "fst (collect_links hrefs pdf_links s) = Inr links"
  then have eq: "links = pdf_links @ filter pdf_ok ?strs"
    by (simp add: collect_links_result)
  have "\<not> pdf_ok []" by (simp add: pdf_ok_def lower_def)
  then have "[] \<notin> set (filter pdf_ok ?strs)" by auto
  moreover have "\<forall>l\<in>set (filter pdf_ok ?strs). Some l \<in> set hrefs"
    by (auto split: option.splits)
  ultimately show ?thesis using eq by blast
qed

lemma scrape_body_raises:
  assumes "fst (scrape_body b url s) = Inl e"
  shows "navigate b url = Some e \<or> (navigate b url = None \<and> wait_anchors b url = Some e)"
proof (cases "navigate b url")
  case (Some e')
  with assms show ?thesis by (simp add: scrape_body_def Let_def)
next
  case None
  show ?thesis
  proof (cases "wait_anchors b url")
    case (Some e')
    with None assms show ?thesis by (simp add: scrape_body_def Let_def)
  next
    case None2: None
    with None assms show ?thesis
      by (simp add: scrape_body_ok collect_links_result)
  qed
qed

lemma scrape_body_skip:
  "scrape_body (b\<lparr>anchors := \<lambda>u. filter truthy (anchors b u)\<rparr>) url s = scrape_body b url s"
  by (simp add: scrape_body_def Let_def collect_links_skip [symmetric] split: option.splits)

lemma fst_scrape: "fst (scrape_pdf_links b url s) = fst (scrape_body b url (emit Launch s))"
  by (simp add: scrape_pdf_links_def split: prod.splits)

text \<open>
  C9. An anchor whose \<open>href\<close> is \<open>None\<close> or empty is skipped: removing those anchors
  from the page changes neither the result nor the effects of the scraper. The scraper
  raises only what navigation or the wait raised, so the loop over the anchors never
  raises (on \<open>None\<close> alone the test of line 94 would: \<open>str_lower None\<close> is an
  \<open>AttributeError\<close>). A returned link is never empty and is the href of an anchor.
\<close>

theorem missing_href_skipped:
  "scrape_pdf_links (b\<lparr>anchors := \<lambda>u. filter truthy (anchors b u)\<rparr>) url s = scrape_pdf_links b url s
   \<and> (\<forall>e. fst (scrape_pdf_links b url s) = Inl e \<longrightarrow>
          navigate b url = Some e \<or> (navigate b url = None \<and> wait_anchors b url = Some e))
   \<and> (\<forall>links. fst (scrape_pdf_links b url s) = Inr links \<longrightarrow>
          [] \<notin> set links \<and> (\<forall>l\<in>set links. Some l \<in> set (anchors b url)))"
proof (intro conjI allI impI)
  show "scrape_pdf_links (b\<lparr>anchors := \<lambda>u. filter truthy (anchors b u)\<rparr>) url s = scrape_pdf_links b url s"
    by (simp add: scrape_pdf_links_def scrape_body_skip)
next
  fix e assume "fst (scrape_pdf_links b url s) = Inl e"
  then show "navigate b url = Some e \<or> (navigate b url = None \<and> wait_anchors b url = Some e)"
    by (simp add: fst_scrape scrape_body_raises)
next
  fix links assume r: "fst (scrape_pdf_links b url s) = Inr links"
  then have body: "fst (scrape_body b url (emit Launch s)) = Inr links" by (simp add: fst_scrape)
  have nav: "navigate b url = None"
    using body by (cases "navigate b url") (simp_all add: scrape_body_def Let_def)
  have wait: "wait_anchors b url = None"
    using body nav by (cases "wait_anchors b url") (simp_all add: scrape_body_def Let_def)
  from body nav wait obtain s' where
    "fst (collect_links (anchors b url) [] s') = Inr links"
    by (simp add: scrape_body_ok)
  from collect_links_members [OF this]
  show "[] \<notin> set links" and "\<forall>l\<in>set links. Some l \<in> set (anchors b url)" by auto
qed

theorem missing_href_skipped_witness:
  "fst (scrape_pdf_links browser_gaps ''http://a.org'' s0) = Inr [''http://a.org/a.pdf'']
   \<and> [] \<notin> set [''http://a.org/a.pdf'']
   \<and> scrape_pdf_links (browser_gaps\<lparr>anchors := \<lambda>u. [Some ''http://a.org/a.pdf'']\<rparr>) ''http://a.org'' s0
       = scrape_pdf_links browser_gaps ''http://a.org'' s0"
proof -
  have run: "fst (scrape_pdf_links browser_gaps ''http://a.org'' s0) = Inr [''http://a.org/a.pdf'']"
    by (simp add: scrape_pdf_links_def scrape_body_def browser_gaps_def s0_def Let_def emit_def
        truthy_def is_pdf_link_def str_lower_def str_in_def str_of_def lower_def lower_char_def
        print_links_def split: prod.splits)
  have keep: "(\<lambda>u. filter truthy (anchors browser_gaps u)) = (\<lambda>u. [Some ''http://a.org/a.pdf''])"
    by (simp add: browser_gaps_def truthy_def)
  show ?thesis
    using missing_href_skipped [of browser_gaps "''http://a.org''" s0] run
    by (simp add: keep)
qed

lemma scrape_body_trace:
  "\<exists>mid. trace (snd (scrape_body b url s)) = trace s @ mid \<and> Quit \<notin> set mid"
proof (cases "navigate b url")
  case (Some e)
  then have "trace (snd (scrape_body b url s)) = trace s @ [Navigate url] \<and> Quit \<notin> set [Navigate url]"
    by (simp add: scrape_body_def Let_def emit_def)
  then show ?thesis by blast
next
  case None
  show ?thesis
  proof (cases "wait_anchors b url")
    case (Some e)
    with None have "trace (snd (scrape_body b url s)) = trace s @ [Navigate url, WaitAnchors]
        \<and> Quit \<notin> set [Navigate url, WaitAnchors]"
      by (simp add: scrape_body_def Let_def emit_def)
    then show ?thesis by blast
  next
    case wait: None
    let ?s3 = "emit FindAnchors (emit WaitAnchors (emit (Navigate url) s))"
    obtain r s4 where run: "collect_links (anchors b url) [] ?s3 = (r, s4)"
      by (cases "collect_links (anchors b url) [] ?s3")
    from collect_links_trace [of "anchors b url" "[]" ?s3] run
    obtain mid where mid: "trace s4 = trace ?s3 @ mid" and prints: "\<forall>ev\<in>set mid. is_Print ev"
      by auto
    from prints have noquit: "Quit \<notin> set mid" by auto
    show ?thesis
    proof (cases r)
      case (Inl e)
      with None wait run mid have
        "trace (snd (scrape_body b url s)) = trace s @ ([Navigate url, WaitAnchors, FindAnchors] @ mid)"
        by (simp add: scrape_body_def Let_def emit_def)
      moreover have "Quit \<notin> set ([Navigate url, WaitAnchors, FindAnchors] @ mid)"
        using noquit by simp
      ultimately show ?thesis by blast
    next
      case (Inr links)
      let ?tail = "[Navigate url, WaitAnchors, FindAnchors] @ mid @ [Print FoundHeader]
          @ map (\<lambda>pdf. Print (Line pdf)) links"
      from Inr None wait run mid have
        "trace (snd (scrape_body b url s)) = trace s @ ?tail"
        by (simp add: scrape_body_def Let_def emit_def print_links_def)
      moreover have "Quit \<notin> set ?tail"
        using noquit by auto
      ultimately show ?thesis by blast
    qed
  qed
qed

lemma snd_scrape: "snd (scrape_pdf_links b url s) = emit Quit (snd (scrape_body b url (emit Launch s)))"
  by (simp add: scrape_pdf_links_def split: prod.splits)

text \<open>
  C7. The driver is quit on every path: the events of a call are \<open>Launch\<close>, then
  events none of which is \<open>Quit\<close>, then \<open>Quit\<close> as the last one. When navigation
  raises, or navigation succeeds and the wait raises, the driver is quit and the same
  exception is the result of the call.
\<close>

theorem scrape_always_quits:
  "(\<exists>mid. trace (snd (scrape_pdf_links b url s)) = trace s @ [Launch] @ mid @ [Quit]
          \<and> Quit \<notin> set mid)
   \<and> (\<forall>e. navigate b url = Some e \<longrightarrow>
          scrape_pdf_links b url s =
            (Inl e, s\<lparr>trace := trace s @ [Launch, Navigate url, Quit]\<rparr>))
   \<and> (\<forall>e. navigate b url = None \<and> wait_anchors b url = Some e \<longrightarrow>
          scrape_pdf_links b url s =
            (Inl e, s\<lparr>trace := trace s @ [Launch, Navigate url, WaitAnchors, Quit]\<rparr>))"
proof (intro conjI allI impI)
  obtain mid where "trace (snd (scrape_body b url (emit Launch s))) = trace (emit Launch s) @ mid"
    and "Quit \<notin> set mid"
    using scrape_body_trace [of b url "emit Launch s"] by blast
  then have "trace (snd (scrape_pdf_links b url s)) = trace s @ [Launch] @ mid @ [Quit]
      \<and> Quit \<notin> set mid"
    by (simp add: snd_scrape emit_def)
  then show "\<exists>mid. trace (snd (scrape_pdf_links b url s)) = trace s @ [Launch] @ mid @ [Quit]
      \<and> Quit \<notin> set mid"
    by blast
next
  fix e assume "navigate b url = Some e"
  then show "scrape_pdf_links b url s =
      (Inl e, s\<lparr>trace := trace s @ [Launch, Navigate url, Quit]\<rparr>)"
    by (simp add: scrape_pdf_links_def scrape_body_def Let_def emit_def)
next
  fix e assume "navigate b url = None \<and> wait_anchors b url = Some e"
  then show "scrape_pdf_links b url s =
      (Inl e, s\<lparr>trace := trace s @ [Launch, Navigate url, WaitAnchors, Quit]\<rparr>)"
    by (simp add: scrape_pdf_links_def scrape_body_def Let_def emit_def)
qed

theorem scrape_always_quits_witness:
  "scrape_pdf_links browser_unreachable ''http://nowhere'' s0 =
     (Inl (Exception ''WebDriverException''),
      \<lparr>trace = [Launch, Navigate ''http://nowhere'', Quit], fs = Map.empty\<rparr>)
   \<and> scrape_pdf_links browser_timeout ''http://blank'' s0 =
     (Inl (Exception ''TimeoutException''),
      \<lparr>trace = [Launch, Navigate ''http://blank'', WaitAnchors, Quit], fs = Map.empty\<rparr>)"
  using scrape_always_quits [of browser_unreachable "''http://nowhere''" s0]
    scrape_always_quits [of browser_timeout "''http://blank''" s0]
  by (simp add: browser_unreachable_def browser_timeout_def s0_def)

section \<open>Properties of download\_pdf\<close>

lemma sleeps_append: "sleeps (xs @ ys) = sleeps xs @ sleeps ys"
  by (simp add: sleeps_def)

lemma range_of_nonpos: "retries \<le> 0 \<Longrightarrow> range_of retries = []"
  by (simp add: range_of_def)

lemma range_of_pos: "0 < retries \<Longrightarrow> \<exists>rest. range_of retries = 0 # rest"
proof -
  assume "0 < retries"
  then have "0 < nat retries" by simp
  then have "[0..<nat retries] = 0 # [Suc 0..<nat retries]" by (simp add: upt_conv_Cons)
  then show ?thesis by (simp add: range_of_def)
qed

lemma range_of_3: "range_of 3 = [0, 1, 2]"
  by (simp add: range_of_def upt_conv_Cons)

lemma write_chunks_ok:
  assumes "\<forall>k. write_file h p k = None" and "fs s p = Some old"
  shows "write_chunks h p cs None k s =
     (Inr (), s\<lparr>trace := trace s @ map (Write p) (filter (\<lambda>c. c \<noteq> []) cs),
                fs := (fs s)(p \<mapsto> old @ concat cs)\<rparr>)"
  using assms
proof (induction cs arbitrary: k s old)
  case Nil
  then show ?case by (simp add: fun_upd_idem)
next
  case (Cons c cs)
  show ?case
  proof (cases "c = []")
    case True
    then show ?thesis using Cons.IH [OF Cons.prems] by simp
  next
    case False
    let ?s1 = "append_file p c (emit (Write p c) s)"
    have "fs ?s1 p = Some (old @ c)"
      using Cons.prems by (simp add: append_file_def emit_def)
    from Cons.IH [OF Cons.prems(1) this, of "Suc k"] False Cons.prems
    show ?thesis by (simp add: append_file_def emit_def fun_upd_def cong: if_cong)
  qed
qed

lemma write_body_ok:
  assumes "open_file h p = None" and "\<forall>k. write_file h p k = None" and "stream_error r = None"
  shows "write_body h p r s =
     (Inr (), s\<lparr>trace := trace s @ [Open p] @ map (Write p) (filter (\<lambda>c. c \<noteq> []) (chunks r)),
                fs := (fs s)(p \<mapsto> concat (chunks r))\<rparr>)"
proof -
  let ?s1 = "(emit (Open p) s)\<lparr>fs := (fs s)(p \<mapsto> [])\<rparr>"
  have "fs ?s1 p = Some []" by simp
  from write_chunks_ok [OF assms(2) this, of "chunks r" 0] assms(1,3)
  show ?thesis by (simp add: write_body_def emit_def)
qed

text \<open>
  C10. With \<open>retries\<close> zero or negative the loop has no iteration: the call returns
  \<open>None\<close> and leaves the state as it was, so there is no request, no sleep and no file.
\<close>

theorem download_none_when_no_retries:
  "retries \<le> 0 \<Longrightarrow> download_pdf h pdf_url save_path retries s = (Inr (), s)"
  by (simp add: download_pdf_def range_of_nonpos)

theorem download_none_when_no_retries_witness:
  "download_pdf host_ok ''http://a.org/a.pdf'' ''a.pdf'' 0 s0 = (Inr (), s0)
   \<and> download_pdf host_ok ''http://a.org/a.pdf'' ''a.pdf'' (- 2) s0 = (Inr (), s0)"
  using download_none_when_no_retries [of 0 host_ok "''http://a.org/a.pdf''" "''a.pdf''" s0]
    download_none_when_no_retries [of "- 2" host_ok "''http://a.org/a.pdf''" "''a.pdf''" s0]
  by simp

text \<open>
  C5. When the first response has a status other than 200 and 403, the call makes that
  one request, prints the failure and stops: no retry, no sleep, no file.
\<close>

theorem download_other_status_stops:
  assumes "0 < retries" and "transport h (requests_made s) = Inr r"
    and "status_code r \<noteq> 200" and "status_code r \<noteq> 403"
  shows "download_pdf h pdf_url save_path retries s =
           (Inr (), s\<lparr>trace := trace s @ [Request pdf_url, Print (Failed (status_code r))]\<rparr>)
         \<and> requests_made (snd (download_pdf h pdf_url save_path retries s)) = Suc (requests_made s)
         \<and> fs (snd (download_pdf h pdf_url save_path retries s)) = fs s"
proof -
  from range_of_pos [OF assms(1)] obtain rest where "range_of retries = 0 # rest" by blast
  with assms(2-4) have "download_pdf h pdf_url save_path retries s =
      (Inr (), s\<lparr>trace := trace s @ [Request pdf_url, Print (Failed (status_code r))]\<rparr>)"
    by (simp add: download_pdf_def Let_def emit_def)
  then show ?thesis by (simp add: requests_made_def)
qed

theorem download_other_status_stops_witness:
  "download_pdf host_500 ''http://a.org/a.pdf'' ''a.pdf'' 3 s0 =
     (Inr (), \<lparr>trace = [Request ''http://a.org/a.pdf'', Print (Failed 500)], fs = Map.empty\<rparr>)"
  using download_other_status_stops [of 3 host_500 s0
      "\<lparr>status_code = 500, chunks = [[7]], stream_error = None\<rparr>" "''http://a.org/a.pdf''" "''a.pdf''"]
  by (simp add: host_500_def s0_def)

lemma attempts_forbidden:
  assumes "transport h (requests_made s) = Inr r" and "status_code r = 403"
  shows "attempts h pdf_url save_path retries (attempt # rest) s =
     attempts h pdf_url save_path retries rest
       (s\<lparr>trace := trace s @ [Request pdf_url, Print (Forbidden pdf_url (attempt + 1) retries), Sleep 2]\<rparr>)"
  using assms by (simp add: Let_def emit_def)

lemma requests_made_forbidden:
  "requests_made (s\<lparr>trace := trace s @ [Request u, Print m, Sleep d]\<rparr>) = Suc (requests_made s)"
  by (simp add: requests_made_def)

lemma requests_made_extend:
  "requests_made (s\<lparr>trace := trace s @ evs\<rparr>) = requests_made s + length (filter is_Request evs)"
  by (simp add: requests_made_def)

lemma write_chunks_disk_only:
  "\<exists>evs. trace (snd (write_chunks h p cs err k s)) = trace s @ evs \<and> list_all touches_disk evs"
proof (induction cs arbitrary: k s)
  case Nil
  have "trace (snd (write_chunks h p [] err k s)) = trace s @ [] \<and> list_all touches_disk []"
    by (cases err) simp_all
  then show ?case by blast
next
  case (Cons c cs)
  show ?case
  proof (cases "c \<noteq> [] \<and> write_file h p k = None")
    case True
    let ?s1 = "append_file p c (emit (Write p c) s)"
    from Cons.IH [of "Suc k" ?s1] obtain evs where
      "trace (snd (write_chunks h p cs err (Suc k) ?s1)) = trace ?s1 @ evs"
      and "list_all touches_disk evs" by blast
    with True have "trace (snd (write_chunks h p (c # cs) err k s)) = trace s @ (Write p c # evs)
        \<and> list_all touches_disk (Write p c # evs)"
      by (simp add: append_file_def emit_def touches_disk_def)
    then show ?thesis by blast
  next
    case False
    then consider "c = []" | e where "c \<noteq> []" "write_file h p k = Some e" by auto
    then show ?thesis
    proof cases
      case 1
      with Cons.IH [of k s] show ?thesis by simp
    next
      case 2
      then have "trace (snd (write_chunks h p (c # cs) err k s)) = trace s @ []
          \<and> list_all touches_disk []" by simp
      then show ?thesis by blast
    qed
  qed
qed

lemma write_body_disk_only:
  "\<exists>evs. trace (snd (write_body h p r s)) = trace s @ evs \<and> list_all touches_disk evs"
proof (cases "open_file h p")
  case (Some e)
  then have "trace (snd (write_body h p r s)) = trace s @ [] \<and> list_all touches_disk []"
    by (simp add: write_body_def)
  then show ?thesis by blast
next
  case None
  let ?s1 = "(emit (Open p) s)\<lparr>fs := (fs s)(p \<mapsto> [])\<rparr>"
  from write_chunks_disk_only [of h p "chunks r" "stream_error r" 0 ?s1] obtain evs where
    "trace (snd (write_chunks h p (chunks r) (stream_error r) 0 ?s1)) = trace ?s1 @ evs"
    and "list_all touches_disk evs" by blast
  with None have "trace (snd (write_body h p r s)) = trace s @ (Open p # evs)
      \<and> list_all touches_disk (Open p # evs)"
    by (simp add: write_body_def emit_def touches_disk_def)
  then show ?thesis by blast
qed

lemma disk_or_print_quiet:
  "list_all disk_or_print evs \<Longrightarrow> filter is_Request evs = [] \<and> sleeps evs = []"
proof (induction evs)
  case Nil
  then show ?case by (simp add: sleeps_def)
next
  case (Cons ev evs)
  then have "disk_or_print ev" and rest: "filter is_Request evs = [] \<and> sleeps evs = []" by simp_all
  then have "\<not> is_Request ev \<and> sleeps [ev] = []"
    by (cases ev) (simp_all add: disk_or_print_def touches_disk_def sleeps_def)
  with rest sleeps_append [of "[ev]" evs] show ?case by simp
qed

lemma attempts_after_200:
  assumes "transport h (requests_made s) = Inr r" and "status_code r = 200"
  shows "\<exists>evs. trace (snd (attempts h u p n (a # rest) s)) = trace s @ Request u # evs
     \<and> list_all disk_or_print evs"
proof -
  let ?s1 = "emit (Request u) s"
  from write_body_disk_only [of h p r ?s1] obtain evs where
    wb: "trace (snd (write_body h p r ?s1)) = trace ?s1 @ evs" and ok: "list_all touches_disk evs"
    by blast
  from ok have ok': "list_all disk_or_print evs"
    by (induction evs) (simp_all add: disk_or_print_def)
  obtain res s2 where run: "write_body h p r ?s1 = (res, s2)" by (cases "write_body h p r ?s1")
  show ?thesis
  proof (cases res)
    case (Inl e)
    with assms run wb have "trace (snd (attempts h u p n (a # rest) s)) = trace s @ Request u # evs"
      by (simp add: Let_def emit_def)
    with ok' show ?thesis by blast
  next
    case (Inr x)
    with assms run wb have "trace (snd (attempts h u p n (a # rest) s)) =
        trace s @ Request u # (evs @ [Print (Downloaded p)])"
      by (simp add: Let_def emit_def)
    moreover have "list_all disk_or_print (evs @ [Print (Downloaded p)])"
      using ok' by (simp add: disk_or_print_def)
    ultimately show ?thesis by blast
  qed
qed

lemma download_pdf_tail:
  "\<exists>tl. trace (snd (download_pdf h u p n s)) = trace (snd (attempts h u p n (range_of n) s)) @ tl
     \<and> list_all disk_or_print tl"
proof -
  obtain res s' where run: "attempts h u p n (range_of n) s = (res, s')"
    by (cases "attempts h u p n (range_of n) s")
  show ?thesis
  proof (cases "\<exists>e. res = Inl e \<and> is_Exception e")
    case True
    then obtain e where e: "res = Inl e" "is_Exception e" by blast
    show ?thesis
    proof (cases "print_error h e")
      case None
      with run e have "trace (snd (download_pdf h u p n s)) =
          trace (snd (attempts h u p n (range_of n) s)) @ [Print (Error e)]
        \<and> list_all disk_or_print [Print (Error e)]"
        by (simp add: download_pdf_def emit_def disk_or_print_def)
      then show ?thesis by blast
    next
      case (Some e')
      with run e have "trace (snd (download_pdf h u p n s)) =
          trace (snd (attempts h u p n (range_of n) s)) @ [] \<and> list_all disk_or_print []"
        by (simp add: download_pdf_def)
      then show ?thesis by blast
    qed
  next
    case False
    with run have "trace (snd (download_pdf h u p n s)) =
        trace (snd (attempts h u p n (range_of n) s)) @ [] \<and> list_all disk_or_print []"
      by (cases res) (simp_all add: download_pdf_def)
    then show ?thesis by blast
  qed
qed

lemma concat_nonempty: "concat (filter (\<lambda>c. c \<noteq> []) cs) = concat cs"
  by (induction cs) simp_all

text \<open>
  C2. When the first response has status 200, the call makes exactly one request and
  never sleeps, whatever the disk does. When moreover the file can be opened and written
  and the stream ends without error, the non-empty chunks are written in order, the file
  holds the whole body, and the call returns \<open>None\<close>.
\<close>

theorem download_ok_first:
  assumes "0 < retries" and "transport h (requests_made s) = Inr r" and "status_code r = 200"
  shows "requests_made (snd (download_pdf h pdf_url save_path retries s)) = Suc (requests_made s)
         \<and> sleeps (trace (snd (download_pdf h pdf_url save_path retries s))) = sleeps (trace s)
         \<and> (open_file h save_path = None \<and> (\<forall>k. write_file h save_path k = None)
              \<and> stream_error r = None \<longrightarrow>
            download_pdf h pdf_url save_path retries s =
              (Inr (), s\<lparr>trace := trace s @ [Request pdf_url, Open save_path]
                             @ map (Write save_path) (filter (\<lambda>c. c \<noteq> []) (chunks r))
                             @ [Print (Downloaded save_path)],
                           fs := (fs s)(save_path \<mapsto> concat (chunks r))\<rparr>)
            \<and> concat (filter (\<lambda>c. c \<noteq> []) (chunks r)) = concat (chunks r))"
proof (intro conjI impI)
  from range_of_pos [OF assms(1)] obtain rest where range: "range_of retries = 0 # rest" by blast
  from attempts_after_200 [OF assms(2,3), of pdf_url save_path retries 0 rest] obtain evs where
    "trace (snd (attempts h pdf_url save_path retries (0 # rest) s)) = trace s @ Request pdf_url # evs"
    and "list_all disk_or_print evs" by blast
  moreover from download_pdf_tail [of h pdf_url save_path retries s] obtain tl where
    "trace (snd (download_pdf h pdf_url save_path retries s)) =
       trace (snd (attempts h pdf_url save_path retries (range_of retries) s)) @ tl"
    and "list_all disk_or_print tl" by blast
  ultimately have tr: "trace (snd (download_pdf h pdf_url save_path retries s)) =
      trace s @ Request pdf_url # (evs @ tl)" and quiet: "list_all disk_or_print (evs @ tl)"
    using range by simp_all
  from disk_or_print_quiet [OF quiet]
  show "requests_made (snd (download_pdf h pdf_url save_path retries s)) = Suc (requests_made s)"
    unfolding requests_made_def tr by simp
  from disk_or_print_quiet [OF quiet]
  show "sleeps (trace (snd (download_pdf h pdf_url save_path retries s))) = sleeps (trace s)"
    unfolding tr using sleeps_append [of "trace s" "Request pdf_url # (evs @ tl)"]
      sleeps_append [of "[Request pdf_url]" "evs @ tl"]
    by (simp add: sleeps_def)
  show "concat (filter (\<lambda>c. c \<noteq> []) (chunks r)) = concat (chunks r)"
    by (rule concat_nonempty)
  assume disk: "open_file h save_path = None \<and> (\<forall>k. write_file h save_path k = None)
      \<and> stream_error r = None"
  then have "write_body h save_path r (emit (Request pdf_url) s) =
      (Inr (), (emit (Request pdf_url) s)\<lparr>trace := trace (emit (Request pdf_url) s) @ [Open save_path]
          @ map (Write save_path) (filter (\<lambda>c. c \<noteq> []) (chunks r)),
        fs := (fs (emit (Request pdf_url) s))(save_path \<mapsto> concat (chunks r))\<rparr>)"
    by (intro write_body_ok) simp_all
  with range assms(2,3)
  show "download_pdf h pdf_url save_path retries s =
      (Inr (), s\<lparr>trace := trace s @ [Request pdf_url, Open save_path]
                     @ map (Write save_path) (filter (\<lambda>c. c \<noteq> []) (chunks r))
                     @ [Print (Downloaded save_path)],
                 fs := (fs s)(save_path \<mapsto> concat (chunks r))\<rparr>)"
    by (simp add: download_pdf_def Let_def emit_def)
qed

theorem download_ok_first_witness:
  "download_pdf host_ok ''http://a.org/a.pdf'' ''a.pdf'' 3 s0 =
     (Inr (), \<lparr>trace = [Request ''http://a.org/a.pdf'', Open ''a.pdf'', Write ''a.pdf'' [1, 2],
                        Write ''a.pdf'' [3], Print (Downloaded ''a.pdf'')],
               fs = [''a.pdf'' \<mapsto> [1, 2, 3]]\<rparr>)
   \<and> requests_made (snd (download_pdf host_ok ''http://a.org/a.pdf'' ''a.pdf'' 3 s0)) = 1"
  using download_ok_first [of 3 host_ok s0 ok_response "''http://a.org/a.pdf''" "''a.pdf''"]
  by (simp add: host_ok_def ok_response_def s0_def requests_made_def)


text \<open>
  C3. With the default \<open>retries = 3\<close>, when the first two responses have status 403 and
  the third has status 200, the call makes exactly three requests and sleeps exactly
  twice, 2 seconds each, once after each 403; everything after the third request is disk
  events and messages. When moreover the file can be opened and written and the stream
  ends without error, the body is written after the third request.
\<close>

theorem download_retries_after_403:
  assumes "transport h (requests_made s) = Inr r1" and "status_code r1 = 403"
    and "transport h (Suc (requests_made s)) = Inr r2" and "status_code r2 = 403"
    and "transport h (Suc (Suc (requests_made s))) = Inr r3" and "status_code r3 = 200"
  shows "requests_made (snd (download_pdf h pdf_url save_path 3 s)) = requests_made s + 3
         \<and> sleeps (trace (snd (download_pdf h pdf_url save_path 3 s))) = sleeps (trace s) @ [2, 2]
         \<and> (\<exists>evs. trace (snd (download_pdf h pdf_url save_path 3 s)) =
                trace s @ [Request pdf_url, Print (Forbidden pdf_url 1 3), Sleep 2,
                           Request pdf_url, Print (Forbidden pdf_url 2 3), Sleep 2,
                           Request pdf_url] @ evs
              \<and> list_all disk_or_print evs)
         \<and> (open_file h save_path = None \<and> (\<forall>k. write_file h save_path k = None)
              \<and> stream_error r3 = None \<longrightarrow>
            download_pdf h pdf_url save_path 3 s =
              (Inr (), s\<lparr>trace := trace s @
                             [Request pdf_url, Print (Forbidden pdf_url 1 3), Sleep 2,
                              Request pdf_url, Print (Forbidden pdf_url 2 3), Sleep 2,
                              Request pdf_url, Open save_path]
                             @ map (Write save_path) (filter (\<lambda>c. c \<noteq> []) (chunks r3))
                             @ [Print (Downloaded save_path)],
                           fs := (fs s)(save_path \<mapsto> concat (chunks r3))\<rparr>))"
proof -
  let ?s1 = "s\<lparr>trace := trace s @ [Request pdf_url, Print (Forbidden pdf_url (0 + 1) 3), Sleep 2]\<rparr>"
  let ?s2 = "?s1\<lparr>trace := trace ?s1 @ [Request pdf_url, Print (Forbidden pdf_url (1 + 1) 3), Sleep 2]\<rparr>"
  let ?pre = "[Request pdf_url, Print (Forbidden pdf_url 1 3), Sleep 2,
               Request pdf_url, Print (Forbidden pdf_url 2 3), Sleep 2]"
  have n1: "requests_made ?s1 = Suc (requests_made s)"
    by (rule requests_made_forbidden)
  have n2: "requests_made ?s2 = Suc (Suc (requests_made s))"
    using n1 by (simp only: requests_made_forbidden)
  have t3: "transport h (requests_made ?s2) = Inr r3"
    by (simp only: n2 assms(5))
  have tr2: "trace ?s2 = trace s @ ?pre" by simp
  have a1: "attempts h pdf_url save_path 3 [0, 1, 2] s = attempts h pdf_url save_path 3 [1, 2] ?s1"
    by (rule attempts_forbidden [OF assms(1,2)])
  have a2: "attempts h pdf_url save_path 3 [1, 2] ?s1 = attempts h pdf_url save_path 3 [2] ?s2"
    by (rule attempts_forbidden [OF _ assms(4)]) (simp only: n1 assms(3))
  have a12: "attempts h pdf_url save_path 3 (range_of 3) s = attempts h pdf_url save_path 3 [2] ?s2"
    by (simp only: range_of_3 a1 a2)
  from attempts_after_200 [OF t3 assms(6), of pdf_url save_path 3 2 "[]"] obtain evs where
    "trace (snd (attempts h pdf_url save_path 3 [2] ?s2)) = trace ?s2 @ Request pdf_url # evs"
    and q1: "list_all disk_or_print evs" by blast
  then have at: "trace (snd (attempts h pdf_url save_path 3 (range_of 3) s)) =
      trace s @ ?pre @ Request pdf_url # evs"
    by (simp only: a12 tr2 append_assoc)
  from download_pdf_tail [of h pdf_url save_path 3 s] obtain tl where
    "trace (snd (download_pdf h pdf_url save_path 3 s)) =
       trace (snd (attempts h pdf_url save_path 3 (range_of 3) s)) @ tl"
    and q2: "list_all disk_or_print tl" by blast
  with at have tr: "trace (snd (download_pdf h pdf_url save_path 3 s)) =
      trace s @ (?pre @ [Request pdf_url]) @ (evs @ tl)"
    by simp
  from q1 q2 have quiet: "list_all disk_or_print (evs @ tl)" by simp
  note none = disk_or_print_quiet [OF quiet]
  have calls: "requests_made (snd (download_pdf h pdf_url save_path 3 s)) = requests_made s + 3"
    unfolding requests_made_def tr using none by simp
  have "sleeps (?pre @ [Request pdf_url]) = [2, 2]" by (simp add: sleeps_def)
  with none have naps: "sleeps (trace (snd (download_pdf h pdf_url save_path 3 s))) =
      sleeps (trace s) @ [2, 2]"
    unfolding tr by (simp only: sleeps_append append_Nil2)
  from tr quiet have shape: "\<exists>evs. trace (snd (download_pdf h pdf_url save_path 3 s)) =
        trace s @ [Request pdf_url, Print (Forbidden pdf_url 1 3), Sleep 2,
                   Request pdf_url, Print (Forbidden pdf_url 2 3), Sleep 2,
                   Request pdf_url] @ evs
      \<and> list_all disk_or_print evs"
    by auto
  have full: "download_pdf h pdf_url save_path 3 s =
      (Inr (), s\<lparr>trace := trace s @
                     [Request pdf_url, Print (Forbidden pdf_url 1 3), Sleep 2,
                      Request pdf_url, Print (Forbidden pdf_url 2 3), Sleep 2,
                      Request pdf_url, Open save_path]
                     @ map (Write save_path) (filter (\<lambda>c. c \<noteq> []) (chunks r3))
                     @ [Print (Downloaded save_path)],
                 fs := (fs s)(save_path \<mapsto> concat (chunks r3))\<rparr>)"
    if disk: "open_file h save_path = None \<and> (\<forall>k. write_file h save_path k = None)
      \<and> stream_error r3 = None"
  proof -
    from disk have wb: "write_body h save_path r3 (emit (Request pdf_url) ?s2) =
        (Inr (), (emit (Request pdf_url) ?s2)\<lparr>trace := trace (emit (Request pdf_url) ?s2)
            @ [Open save_path] @ map (Write save_path) (filter (\<lambda>c. c \<noteq> []) (chunks r3)),
          fs := (fs (emit (Request pdf_url) ?s2))(save_path \<mapsto> concat (chunks r3))\<rparr>)"
      by (intro write_body_ok) simp_all
    have a3: "attempts h pdf_url save_path 3 [2] ?s2 =
        (Inr (), emit (Print (Downloaded save_path))
           (snd (write_body h save_path r3 (emit (Request pdf_url) ?s2))))"
      using assms(5,6) wb by (simp add: requests_made_extend Let_def)
    show ?thesis
      unfolding download_pdf_def a12 a3 using wb by (simp add: emit_def)
  qed
  from calls naps shape full show ?thesis by blast
qed

theorem download_retries_after_403_witness:
  "download_pdf host_403_403_200 ''http://a.org/a.pdf'' ''a.pdf'' 3 s0 =
     (Inr (), \<lparr>trace = [Request ''http://a.org/a.pdf'', Print (Forbidden ''http://a.org/a.pdf'' 1 3), Sleep 2,
                        Request ''http://a.org/a.pdf'', Print (Forbidden ''http://a.org/a.pdf'' 2 3), Sleep 2,
                        Request ''http://a.org/a.pdf'', Open ''a.pdf'', Write ''a.pdf'' [1, 2],
                        Write ''a.pdf'' [3], Print (Downloaded ''a.pdf'')],
               fs = [''a.pdf'' \<mapsto> [1, 2, 3]]\<rparr>)
   \<and> requests_made (snd (download_pdf host_403_403_200 ''http://a.org/a.pdf'' ''a.pdf'' 3 s0)) = 3
   \<and> sleeps (trace (snd (download_pdf host_403_403_200 ''http://a.org/a.pdf'' ''a.pdf'' 3 s0))) = [2, 2]"
proof -
  have t: "transport host_403_403_200 (requests_made s0) = Inr forbidden_response"
    "transport host_403_403_200 (Suc (requests_made s0)) = Inr forbidden_response"
    "transport host_403_403_200 (Suc (Suc (requests_made s0))) = Inr ok_response"
    and c: "status_code forbidden_response = 403" "status_code ok_response = 200"
    by (simp_all add: host_403_403_200_def forbidden_response_def ok_response_def s0_def
        requests_made_def)
  have disk: "open_file host_403_403_200 ''a.pdf'' = None
      \<and> (\<forall>k. write_file host_403_403_200 ''a.pdf'' k = None) \<and> stream_error ok_response = None"
    by (simp add: host_403_403_200_def ok_response_def)
  from download_retries_after_403 [OF t(1) c(1) t(2) c(1) t(3) c(2),
      of "''http://a.org/a.pdf''" "''a.pdf''"] disk
  show ?thesis
    by (simp add: ok_response_def s0_def requests_made_def sleeps_def)
qed

text \<open>
  C4, as the code has it. With the default \<open>retries = 3\<close>, when all three responses have
  status 403, the call makes exactly three requests, sleeps after each of them, so three
  times, writes no file and returns \<open>None\<close>.
\<close>

theorem download_gives_up_after_403:
  assumes "transport h (requests_made s) = Inr r1" and "status_code r1 = 403"
    and "transport h (Suc (requests_made s)) = Inr r2" and "status_code r2 = 403"
    and "transport h (Suc (Suc (requests_made s))) = Inr r3" and "status_code r3 = 403"
  shows "download_pdf h pdf_url save_path 3 s =
           (Inr (), s\<lparr>trace := trace s @
                          [Request pdf_url, Print (Forbidden pdf_url 1 3), Sleep 2,
                           Request pdf_url, Print (Forbidden pdf_url 2 3), Sleep 2,
                           Request pdf_url, Print (Forbidden pdf_url 3 3), Sleep 2]\<rparr>)
         \<and> requests_made (snd (download_pdf h pdf_url save_path 3 s)) = requests_made s + 3
         \<and> sleeps (trace (snd (download_pdf h pdf_url save_path 3 s))) = sleeps (trace s) @ [2, 2, 2]
         \<and> fs (snd (download_pdf h pdf_url save_path 3 s)) = fs s"
proof -
  let ?s1 = "s\<lparr>trace := trace s @ [Request pdf_url, Print (Forbidden pdf_url (0 + 1) 3), Sleep 2]\<rparr>"
  let ?s2 = "?s1\<lparr>trace := trace ?s1 @ [Request pdf_url, Print (Forbidden pdf_url (1 + 1) 3), Sleep 2]\<rparr>"
  let ?s3 = "?s2\<lparr>trace := trace ?s2 @ [Request pdf_url, Print (Forbidden pdf_url (2 + 1) 3), Sleep 2]\<rparr>"
  have n1: "requests_made ?s1 = Suc (requests_made s)"
    by (rule requests_made_forbidden)
  have n2: "requests_made ?s2 = Suc (Suc (requests_made s))"
    using n1 by (simp only: requests_made_forbidden)
  have a1: "attempts h pdf_url save_path 3 [0, 1, 2] s = attempts h pdf_url save_path 3 [1, 2] ?s1"
    by (rule attempts_forbidden [OF assms(1,2)])
  have a2: "attempts h pdf_url save_path 3 [1, 2] ?s1 = attempts h pdf_url save_path 3 [2] ?s2"
    by (rule attempts_forbidden [OF _ assms(4)]) (simp only: n1 assms(3))
  have a3: "attempts h pdf_url save_path 3 [2] ?s2 = attempts h pdf_url save_path 3 [] ?s3"
    by (rule attempts_forbidden [OF _ assms(6)]) (simp only: n2 assms(5))
  have run: "download_pdf h pdf_url save_path 3 s =
      (Inr (), s\<lparr>trace := trace s @
                     [Request pdf_url, Print (Forbidden pdf_url 1 3), Sleep 2,
                      Request pdf_url, Print (Forbidden pdf_url 2 3), Sleep 2,
                      Request pdf_url, Print (Forbidden pdf_url 3 3), Sleep 2]\<rparr>)"
    unfolding download_pdf_def range_of_3 a1 a2 a3 by simp
  show ?thesis
    unfolding run by (simp add: requests_made_def sleeps_append) (simp add: sleeps_def)
qed

theorem download_gives_up_after_403_witness:
  "download_pdf host_forbidden ''http://a.org/a.pdf'' ''a.pdf'' 3 s0 =
     (Inr (), \<lparr>trace = [Request ''http://a.org/a.pdf'', Print (Forbidden ''http://a.org/a.pdf'' 1 3), Sleep 2,
                        Request ''http://a.org/a.pdf'', Print (Forbidden ''http://a.org/a.pdf'' 2 3), Sleep 2,
                        Request ''http://a.org/a.pdf'', Print (Forbidden ''http://a.org/a.pdf'' 3 3), Sleep 2],
               fs = Map.empty\<rparr>)"
  using download_gives_up_after_403 [of host_forbidden s0 forbidden_response forbidden_response
      forbidden_response "''http://a.org/a.pdf''" "''a.pdf''"]
  by (simp add: host_forbidden_def forbidden_response_def s0_def)

text \<open>
  C4 as stated says two sleeps. On a host that always answers 403 the call sleeps three
  times: line 50 runs in every iteration that sees a 403, the last one included.
\<close>

theorem download_403_sleeps_thrice:
  "requests_made (snd (download_pdf host_forbidden ''http://a.org/a.pdf'' ''a.pdf'' 3 s0)) = 3
   \<and> sleeps (trace (snd (download_pdf host_forbidden ''http://a.org/a.pdf'' ''a.pdf'' 3 s0))) = [2, 2, 2]
   \<and> length (sleeps (trace (snd (download_pdf host_forbidden ''http://a.org/a.pdf'' ''a.pdf'' 3 s0)))) \<noteq> 2"
  by (simp add: download_pdf_def range_of_3 host_forbidden_def forbidden_response_def s0_def
      Let_def emit_def requests_made_def sleeps_def)

lemma attempts_transport_raises:
  assumes "0 < retries" and "transport h (requests_made s) = Inl e"
  shows "attempts h pdf_url save_path retries (range_of retries) s =
     (Inl e, emit (Request pdf_url) s)"
proof -
  from range_of_pos [OF assms(1)] obtain rest where "range_of retries = 0 # rest" by blast
  with assms(2) show ?thesis by (simp add: Let_def)
qed

lemma attempts_open_raises:
  assumes "0 < retries" and "transport h (requests_made s) = Inr r" and "status_code r = 200"
    and "open_file h save_path = Some e"
  shows "attempts h pdf_url save_path retries (range_of retries) s =
     (Inl e, emit (Request pdf_url) s)"
proof -
  from range_of_pos [OF assms(1)] obtain rest where "range_of retries = 0 # rest" by blast
  with assms(2,3,4) show ?thesis by (simp add: Let_def write_body_def)
qed

text \<open>
  C6, as the code has it. Whatever the loop of attempts raises: an instance of
  \<open>Exception\<close> is caught and printed, and the call returns \<open>None\<close> when that print
  succeeds; when the print of the handler raises, its exception reaches the caller; an
  exception that is not an instance of \<open>Exception\<close> reaches the caller unchanged. When
  the loop raises nothing the call returns \<open>None\<close>. A network error of the first request
  and a disk error of \<open>open\<close> after a first status 200 are such exceptions of the loop.
\<close>

theorem download_swallows_exceptions:
  "(\<forall>e. fst (attempts h pdf_url save_path retries (range_of retries) s) = Inl e
          \<and> is_Exception e \<and> print_error h e = None \<longrightarrow>
        download_pdf h pdf_url save_path retries s =
          (Inr (), emit (Print (Error e))
                     (snd (attempts h pdf_url save_path retries (range_of retries) s))))
   \<and> (\<forall>e e'. fst (attempts h pdf_url save_path retries (range_of retries) s) = Inl e
          \<and> is_Exception e \<and> print_error h e = Some e' \<longrightarrow>
        download_pdf h pdf_url save_path retries s =
          (Inl e', snd (attempts h pdf_url save_path retries (range_of retries) s)))
   \<and> (\<forall>e. fst (attempts h pdf_url save_path retries (range_of retries) s) = Inl e
          \<and> \<not> is_Exception e \<longrightarrow>
        download_pdf h pdf_url save_path retries s =
          (Inl e, snd (attempts h pdf_url save_path retries (range_of retries) s)))
   \<and> (\<forall>x. fst (attempts h pdf_url save_path retries (range_of retries) s) = Inr x \<longrightarrow>
        download_pdf h pdf_url save_path retries s =
          (Inr (), snd (attempts h pdf_url save_path retries (range_of retries) s)))
   \<and> (\<forall>e. 0 < retries \<and> transport h (requests_made s) = Inl e \<longrightarrow>
        attempts h pdf_url save_path retries (range_of retries) s =
          (Inl e, emit (Request pdf_url) s))
   \<and> (\<forall>r e. 0 < retries \<and> transport h (requests_made s) = Inr r \<and> status_code r = 200
          \<and> open_file h save_path = Some e \<longrightarrow>
        attempts h pdf_url save_path retries (range_of retries) s =
          (Inl e, emit (Request pdf_url) s))"
proof -
  obtain res s' where run: "attempts h pdf_url save_path retries (range_of retries) s = (res, s')"
    by (cases "attempts h pdf_url save_path retries (range_of retries) s")
  have caught: "download_pdf h pdf_url save_path retries s = (Inr (), emit (Print (Error e)) s')"
    if "res = Inl e" "is_Exception e" "print_error h e = None" for e
    using that run by (simp add: download_pdf_def)
  have mute: "download_pdf h pdf_url save_path retries s = (Inl e', s')"
    if "res = Inl e" "is_Exception e" "print_error h e = Some e'" for e e'
    using that run by (simp add: download_pdf_def)
  have through: "download_pdf h pdf_url save_path retries s = (Inl e, s')"
    if "res = Inl e" "\<not> is_Exception e" for e
    using that run by (simp add: download_pdf_def)
  have quiet: "download_pdf h pdf_url save_path retries s = (Inr (), s')"
    if "res = Inr x" for x
    using that run by (simp add: download_pdf_def)
  show ?thesis
    unfolding run fst_conv snd_conv
    using caught mute through quiet attempts_transport_raises [of retries h s _ pdf_url save_path]
      attempts_open_raises [of retries h s _ save_path _ pdf_url] run
    by (intro conjI allI impI) auto
qed

theorem download_swallows_exceptions_witness:
  "download_pdf host_down ''http://a.org/a.pdf'' ''a.pdf'' 3 s0 =
     (Inr (), \<lparr>trace = [Request ''http://a.org/a.pdf'', Print (Error (Exception ''ConnectionError''))],
               fs = Map.empty\<rparr>)
   \<and> download_pdf host_mute ''http://a.org/a.pdf'' ''a.pdf'' 3 s0 =
     (Inl (Exception ''UnicodeEncodeError''),
      \<lparr>trace = [Request ''http://a.org/a.pdf''], fs = Map.empty\<rparr>)
   \<and> download_pdf host_interrupted ''http://a.org/a.pdf'' ''a.pdf'' 3 s0 =
     (Inl (BaseException ''KeyboardInterrupt''),
      \<lparr>trace = [Request ''http://a.org/a.pdf''], fs = Map.empty\<rparr>)"
proof -
  note down = download_swallows_exceptions [of host_down "''http://a.org/a.pdf''" "''a.pdf''" 3 s0]
  note mute = download_swallows_exceptions [of host_mute "''http://a.org/a.pdf''" "''a.pdf''" 3 s0]
  note intr = download_swallows_exceptions
    [of host_interrupted "''http://a.org/a.pdf''" "''a.pdf''" 3 s0]
  have a1: "attempts host_down ''http://a.org/a.pdf'' ''a.pdf'' 3 (range_of 3) s0 =
      (Inl (Exception ''ConnectionError''), emit (Request ''http://a.org/a.pdf'') s0)"
    using down by (simp add: host_down_def)
  have a2: "attempts host_mute ''http://a.org/a.pdf'' ''a.pdf'' 3 (range_of 3) s0 =
      (Inl (Exception ''ConnectionError''), emit (Request ''http://a.org/a.pdf'') s0)"
    using mute by (simp add: host_mute_def)
  have a3: "attempts host_interrupted ''http://a.org/a.pdf'' ''a.pdf'' 3 (range_of 3) s0 =
      (Inl (BaseException ''KeyboardInterrupt''), emit (Request ''http://a.org/a.pdf'') s0)"
    using intr by (simp add: host_interrupted_def)
  have "download_pdf host_down ''http://a.org/a.pdf'' ''a.pdf'' 3 s0 =
      (Inr (), emit (Print (Error (Exception ''ConnectionError'')))
                 (emit (Request ''http://a.org/a.pdf'') s0))"
    using down unfolding a1 by (simp add: host_down_def)
  moreover have "download_pdf host_mute ''http://a.org/a.pdf'' ''a.pdf'' 3 s0 =
      (Inl (Exception ''UnicodeEncodeError''), emit (Request ''http://a.org/a.pdf'') s0)"
    using mute unfolding a2 by (simp add: host_mute_def)
  moreover have "download_pdf host_interrupted ''http://a.org/a.pdf'' ''a.pdf'' 3 s0 =
      (Inl (BaseException ''KeyboardInterrupt''), emit (Request ''http://a.org/a.pdf'') s0)"
    using intr unfolding a3 by simp
  ultimately show ?thesis by (simp add: emit_def s0_def)
qed

text \<open>
  C6 as stated says that any exception is caught and that the call always returns
  \<open>None\<close>. The handler is \<open>except Exception\<close>: a \<open>KeyboardInterrupt\<close> raised while the
  request is in flight is not an instance of \<open>Exception\<close> and reaches the caller. And
  the \<open>print\<close> of the handler is outside the \<open>try\<close>: on a console that cannot encode
  its message, a caught network error is followed by a \<open>UnicodeEncodeError\<close>, an
  instance of \<open>Exception\<close>, that reaches the caller.
\<close>

theorem download_lets_exceptions_through:
  "fst (download_pdf host_interrupted ''http://a.org/a.pdf'' ''a.pdf'' 3 s0) =
     Inl (BaseException ''KeyboardInterrupt'')
   \<and> fst (download_pdf host_interrupted ''http://a.org/a.pdf'' ''a.pdf'' 3 s0) \<noteq> Inr ()
   \<and> fst (download_pdf host_mute ''http://a.org/a.pdf'' ''a.pdf'' 3 s0) =
     Inl (Exception ''UnicodeEncodeError'')
   \<and> is_Exception (Exception ''UnicodeEncodeError'')
   \<and> fst (download_pdf host_mute ''http://a.org/a.pdf'' ''a.pdf'' 3 s0) \<noteq> Inr ()"
  by (simp add: download_pdf_def range_of_3 host_interrupted_def host_mute_def s0_def Let_def
      emit_def)

section \<open>Properties of main\<close>

lemma takeWhile_absent: "c \<notin> set xs \<Longrightarrow> takeWhile (\<lambda>x. x \<noteq> c) xs = xs"
  by (induction xs) auto

lemma takeWhile_absent_snoc: "c \<notin> set xs \<Longrightarrow> takeWhile (\<lambda>x. x \<noteq> c) (xs @ [c]) = xs"
  by (induction xs) auto

lemma split_from_nonempty: "split_from sep cur s \<noteq> []"
  by (induction s arbitrary: cur) simp_all

lemma last_split_from:
  "last (split_from sep cur s) =
     (if sep \<in> set s then rev (takeWhile (\<lambda>c. c \<noteq> sep) (rev s)) else cur @ s)"
proof (induction s arbitrary: cur)
  case Nil
  then show ?case by simp
next
  case (Cons x xs)
  note nonempty = split_from_nonempty [of sep "[]" xs]
  show ?case
  proof (cases "x = sep")
    case True
    show ?thesis
    proof (cases "sep \<in> set xs")
      case True
      with \<open>x = sep\<close> Cons.IH [of "[]"] nonempty show ?thesis
        by (simp add: takeWhile_append1)
    next
      case False
      then have "takeWhile (\<lambda>c. c \<noteq> sep) (rev xs @ [sep]) = rev xs"
        using takeWhile_absent_snoc [of sep "rev xs"] by simp
      with False \<open>x = sep\<close> Cons.IH [of "[]"] nonempty show ?thesis by simp
    qed
  next
    case False
    show ?thesis
    proof (cases "sep \<in> set xs")
      case True
      with False Cons.IH [of "cur @ [x]"] show ?thesis
        by (simp add: takeWhile_append1)
    next
      case notin: False
      with False Cons.IH [of "cur @ [x]"] show ?thesis by simp
    qed
  qed
qed

lemma split_on_nonempty: "split_on sep s \<noteq> []"
  by (simp add: split_on_def split_from_nonempty)

lemma last_split_on: "last (split_on CHR ''/'' url) = final_segment url"
proof (cases "CHR ''/'' \<in> set url")
  case True
  then show ?thesis by (simp add: split_on_def last_split_from final_segment_def)
next
  case False
  then have "takeWhile (\<lambda>c. c \<noteq> CHR ''/'') (rev url) = rev url"
    using takeWhile_absent [of "CHR ''/''" "rev url"] by simp
  then have "final_segment url = url" by (simp only: final_segment_def rev_rev_ident)
  with False show ?thesis by (simp add: split_on_def last_split_from)
qed

lemma pdf_name_of_eq: "pdf_name_of join pdf_url = Inr (join save_dir (final_segment pdf_url))"
  by (simp add: pdf_name_of_def last_item_def split_on_nonempty last_split_on)

lemma final_segment_after_last_slash:
  "CHR ''/'' \<notin> set (final_segment url)
   \<and> (url = final_segment url \<or> (\<exists>pre. url = pre @ ''/'' @ final_segment url))"
proof -
  let ?P = "\<lambda>c. c \<noteq> CHR ''/''"
  have no: "CHR ''/'' \<notin> set (final_segment url)"
    using set_takeWhileD [of "CHR ''/''" ?P "rev url"] by (auto simp: final_segment_def)
  have split: "rev url = takeWhile ?P (rev url) @ dropWhile ?P (rev url)" by simp
  show ?thesis
  proof (cases "dropWhile ?P (rev url)")
    case Nil
    with split have "rev url = takeWhile ?P (rev url)" by simp
    then have "url = final_segment url" by (metis final_segment_def rev_rev_ident)
    with no show ?thesis by blast
  next
    case (Cons c cs)
    then have "c = CHR ''/''" using hd_dropWhile [of ?P "rev url"] by auto
    with Cons split have "rev url = takeWhile ?P (rev url) @ CHR ''/'' # cs" by simp
    then have "rev (rev url) = rev (takeWhile ?P (rev url) @ CHR ''/'' # cs)" by (rule arg_cong)
    then have "url = rev cs @ ''/'' @ final_segment url"
      by (simp add: final_segment_def)
    with no show ?thesis by blast
  qed
qed

lemma write_chunks_events:
  "\<exists>evs. trace (snd (write_chunks h p cs err k s)) = trace s @ evs \<and> list_all (event_of u p) evs"
proof (induction cs arbitrary: k s)
  case Nil
  have "trace (snd (write_chunks h p [] err k s)) = trace s @ [] \<and> list_all (event_of u p) []"
    by (cases err) simp_all
  then show ?case by blast
next
  case (Cons c cs)
  show ?case
  proof (cases "c \<noteq> [] \<and> write_file h p k = None")
    case True
    let ?s1 = "append_file p c (emit (Write p c) s)"
    from Cons.IH [of "Suc k" ?s1] obtain evs where
      "trace (snd (write_chunks h p cs err (Suc k) ?s1)) = trace ?s1 @ evs"
      and "list_all (event_of u p) evs" by blast
    with True have "trace (snd (write_chunks h p (c # cs) err k s)) = trace s @ (Write p c # evs)
        \<and> list_all (event_of u p) (Write p c # evs)"
      by (simp add: append_file_def emit_def event_of_def)
    then show ?thesis by blast
  next
    case False
    then consider "c = []" | e where "c \<noteq> []" "write_file h p k = Some e" by auto
    then show ?thesis
    proof cases
      case 1
      with Cons.IH [of k s] show ?thesis by simp
    next
      case 2
      then have "trace (snd (write_chunks h p (c # cs) err k s)) = trace s @ []
          \<and> list_all (event_of u p) []" by simp
      then show ?thesis by blast
    qed
  qed
qed

lemma write_body_events:
  "\<exists>evs. trace (snd (write_body h p r s)) = trace s @ evs \<and> list_all (event_of u p) evs"
proof (cases "open_file h p")
  case (Some e)
  then have "trace (snd (write_body h p r s)) = trace s @ [] \<and> list_all (event_of u p) []"
    by (simp add: write_body_def)
  then show ?thesis by blast
next
  case None
  let ?s1 = "(emit (Open p) s)\<lparr>fs := (fs s)(p \<mapsto> [])\<rparr>"
  from write_chunks_events [of h p "chunks r" "stream_error r" 0 ?s1 u] obtain evs where
    "trace (snd (write_chunks h p (chunks r) (stream_error r) 0 ?s1)) = trace ?s1 @ evs"
    and "list_all (event_of u p) evs" by blast
  with None have "trace (snd (write_body h p r s)) = trace s @ (Open p # evs)
      \<and> list_all (event_of u p) (Open p # evs)"
    by (simp add: write_body_def emit_def event_of_def)
  then show ?thesis by blast
qed

lemma attempts_events:
  "\<exists>evs. trace (snd (attempts h u p retries as s)) = trace s @ evs
     \<and> list_all (event_of u p) evs \<and> (as \<noteq> [] \<longrightarrow> (\<exists>rest. evs = Request u # rest))"
proof (induction as arbitrary: s)
  case Nil
  have "trace (snd (attempts h u p retries [] s)) = trace s @ [] \<and> list_all (event_of u p) []"
    by simp
  then show ?case by blast
next
  case (Cons attempt rest)
  let ?s1 = "emit (Request u) s"
  have "\<exists>tl. trace (snd (attempts h u p retries (attempt # rest) s)) = trace s @ Request u # tl
      \<and> list_all (event_of u p) tl"
  proof (cases "transport h (requests_made s)")
    case (Inl e)
    then have "trace (snd (attempts h u p retries (attempt # rest) s)) = trace s @ Request u # []
        \<and> list_all (event_of u p) []"
      by (simp add: Let_def emit_def)
    then show ?thesis by blast
  next
    case (Inr r)
    consider "status_code r = 200" | "status_code r = 403"
      | "status_code r \<noteq> 200" "status_code r \<noteq> 403" by blast
    then show ?thesis
    proof cases
      case 1
      from write_body_events [of h p r ?s1 u] obtain evs where
        wb: "trace (snd (write_body h p r ?s1)) = trace ?s1 @ evs" and ok: "list_all (event_of u p) evs"
        by blast
      obtain res s2 where run: "write_body h p r ?s1 = (res, s2)" by (cases "write_body h p r ?s1")
      show ?thesis
      proof (cases res)
        case (Inl e)
        with Inr 1 run wb have
          "trace (snd (attempts h u p retries (attempt # rest) s)) = trace s @ Request u # evs"
          by (simp add: Let_def emit_def)
        with ok show ?thesis by blast
      next
        case res: (Inr x)
        with Inr 1 run wb have
          "trace (snd (attempts h u p retries (attempt # rest) s)) =
             trace s @ Request u # (evs @ [Print (Downloaded p)])"
          by (simp add: Let_def emit_def)
        moreover have "list_all (event_of u p) (evs @ [Print (Downloaded p)])"
          using ok by (simp add: event_of_def)
        ultimately show ?thesis by blast
      qed
    next
      case 2
      let ?s2 = "emit (Sleep 2) (emit (Print (Forbidden u (attempt + 1) retries)) ?s1)"
      from Cons.IH [of ?s2] obtain evs where
        "trace (snd (attempts h u p retries rest ?s2)) = trace ?s2 @ evs"
        and ok: "list_all (event_of u p) evs" by blast
      with Inr 2 have
        "trace (snd (attempts h u p retries (attempt # rest) s)) =
           trace s @ Request u # ([Print (Forbidden u (attempt + 1) retries), Sleep 2] @ evs)"
        by (simp add: Let_def emit_def)
      moreover have "list_all (event_of u p) ([Print (Forbidden u (attempt + 1) retries), Sleep 2] @ evs)"
        using ok by (simp add: event_of_def)
      ultimately show ?thesis by blast
    next
      case 3
      with Inr have
        "trace (snd (attempts h u p retries (attempt # rest) s)) =
           trace s @ Request u # [Print (Failed (status_code r))]"
        by (simp add: Let_def emit_def)
      moreover have "list_all (event_of u p) [Print (Failed (status_code r))]"
        by (simp add: event_of_def)
      ultimately show ?thesis by blast
    qed
  qed
  then obtain tl where "trace (snd (attempts h u p retries (attempt # rest) s)) = trace s @ Request u # tl"
    and "list_all (event_of u p) tl" by blast
  then have "trace (snd (attempts h u p retries (attempt # rest) s)) = trace s @ (Request u # tl)
      \<and> list_all (event_of u p) (Request u # tl)
      \<and> (attempt # rest \<noteq> [] \<longrightarrow> (\<exists>rest'. Request u # tl = Request u # rest'))"
    by (simp add: event_of_def)
  then show ?case by blast
qed

lemma download_pdf_serves:
  "\<exists>run. trace (snd (download_pdf h u p 3 s)) = trace s @ run \<and> serves u p run"
proof -
  from attempts_events [of h u p 3 "range_of 3" s] obtain evs rest where
    tr: "trace (snd (attempts h u p 3 (range_of 3) s)) = trace s @ evs"
    and ok: "list_all (event_of u p) evs" and hd: "evs = Request u # rest"
    by (auto simp: range_of_3)
  obtain res s' where run: "attempts h u p 3 (range_of 3) s = (res, s')"
    by (cases "attempts h u p 3 (range_of 3) s")
  show ?thesis
  proof (cases "\<exists>e. res = Inl e \<and> is_Exception e")
    case True
    then obtain e where e: "res = Inl e" "is_Exception e" by blast
    show ?thesis
    proof (cases "print_error h e")
      case None
      with run tr e have
        "trace (snd (download_pdf h u p 3 s)) = trace s @ (evs @ [Print (Error e)])"
        by (simp add: download_pdf_def emit_def)
      moreover have "serves u p (evs @ [Print (Error e)])"
        using ok hd by (simp add: serves_def event_of_def)
      ultimately show ?thesis by blast
    next
      case (Some e')
      with run tr e have "trace (snd (download_pdf h u p 3 s)) = trace s @ evs"
        by (simp add: download_pdf_def)
      moreover have "serves u p evs" using ok hd by (simp add: serves_def event_of_def)
      ultimately show ?thesis by blast
    qed
  next
    case False
    with run tr have "trace (snd (download_pdf h u p 3 s)) = trace s @ evs"
      by (cases res) (simp_all add: download_pdf_def)
    moreover have "serves u p evs" using ok hd by (simp add: serves_def event_of_def)
    ultimately show ?thesis by blast
  qed
qed

lemma download_each_runs:
  "\<exists>runs. trace (snd (download_each h join links s)) = trace s @ concat runs
     \<and> list_all2 (\<lambda>u run. serves u (join save_dir (final_segment u)) run)
          (take (length runs) links) runs
     \<and> (fst (download_each h join links s) = Inr () \<longrightarrow> length runs = length links)"
proof (induction links arbitrary: s)
  case Nil
  have "trace (snd (download_each h join [] s)) = trace s @ concat []
     \<and> list_all2 (\<lambda>u run. serves u (join save_dir (final_segment u)) run) (take (length []) []) []
     \<and> (fst (download_each h join [] s) = Inr () \<longrightarrow> length [] = length ([] :: string list))"
    by simp
  then show ?case by (rule exI)
next
  case (Cons u us)
  let ?p = "join save_dir (final_segment u)"
  let ?Q = "\<lambda>u run. serves u (join save_dir (final_segment u)) run"
  from download_pdf_serves [of h u ?p s] obtain run where
    tr: "trace (snd (download_pdf h u ?p 3 s)) = trace s @ run" and sv: "serves u ?p run" by blast
  obtain res s' where dl: "download_pdf h u ?p 3 s = (res, s')" by (cases "download_pdf h u ?p 3 s")
  show ?case
  proof (cases res)
    case (Inl e)
    with dl tr sv have "trace (snd (download_each h join (u # us) s)) = trace s @ concat [run]
       \<and> list_all2 ?Q (take (length [run]) (u # us)) [run]
       \<and> (fst (download_each h join (u # us) s) = Inr () \<longrightarrow> length [run] = length (u # us))"
      by (simp add: pdf_name_of_eq)
    then show ?thesis by (rule exI)
  next
    case (Inr x)
    from Cons.IH [of s'] obtain runs where
      rt: "trace (snd (download_each h join us s')) = trace s' @ concat runs"
      and ra: "list_all2 ?Q (take (length runs) us) runs"
      and rl: "fst (download_each h join us s') = Inr () \<longrightarrow> length runs = length us" by blast
    from Inr dl tr sv rt ra rl
    have "trace (snd (download_each h join (u # us) s)) = trace s @ concat (run # runs)
       \<and> list_all2 ?Q (take (length (run # runs)) (u # us)) (run # runs)
       \<and> (fst (download_each h join (u # us) s) = Inr () \<longrightarrow> length (run # runs) = length (u # us))"
      by (simp add: pdf_name_of_eq)
    then show ?thesis by (rule exI)
  qed
qed

text \<open>
  C8. For every link the entry point computes the file name by joining the save directory
  with the last element of \<open>pdf_url.split('/')\<close>, which always exists and is the part of
  the URL after its last \<open>/\<close> (the whole URL when it has none). The events of the entry
  point after the scraper are the events of one download per link, in the order of the
  scraper's list, each a request for that link followed only by events of that link and
  its file name; all links are served when the entry point returns normally, and only a
  download that lets an exception through stops the sequence earlier.
\<close>

theorem main_downloads_in_order:
  assumes "fst (scrape_pdf_links b url s) = Inr links"
  shows "(\<forall>u. pdf_name_of join u = Inr (join save_dir (final_segment u))
            \<and> CHR ''/'' \<notin> set (final_segment u)
            \<and> (u = final_segment u \<or> (\<exists>pre. u = pre @ ''/'' @ final_segment u)))
         \<and> (\<exists>runs. trace (snd (main b h join url s)) =
                trace (snd (scrape_pdf_links b url s)) @ concat runs
                  @ (if links = [] then [Print NoLinks] else [])
              \<and> list_all2 (\<lambda>u run. serves u (join save_dir (final_segment u)) run)
                   (take (length runs) links) runs
              \<and> (fst (main b h join url s) = Inr () \<longrightarrow> length runs = length links))"
proof (intro conjI allI)
  fix u
  show "pdf_name_of join u = Inr (join save_dir (final_segment u))" by (rule pdf_name_of_eq)
  show "CHR ''/'' \<notin> set (final_segment u)"
    using final_segment_after_last_slash [of u] by blast
  show "u = final_segment u \<or> (\<exists>pre. u = pre @ ''/'' @ final_segment u)"
    using final_segment_after_last_slash [of u] by blast
next
  let ?Q = "\<lambda>u run. serves u (join save_dir (final_segment u)) run"
  obtain s1 where sc: "scrape_pdf_links b url s = (Inr links, s1)"
    using assms by (cases "scrape_pdf_links b url s") simp
  show "\<exists>runs. trace (snd (main b h join url s)) =
          trace (snd (scrape_pdf_links b url s)) @ concat runs
            @ (if links = [] then [Print NoLinks] else [])
        \<and> list_all2 ?Q (take (length runs) links) runs
        \<and> (fst (main b h join url s) = Inr () \<longrightarrow> length runs = length links)"
  proof (cases "links = []")
    case True
    with sc have "trace (snd (main b h join url s)) =
          trace (snd (scrape_pdf_links b url s)) @ concat []
            @ (if links = [] then [Print NoLinks] else [])
        \<and> list_all2 ?Q (take (length []) links) []
        \<and> (fst (main b h join url s) = Inr () \<longrightarrow> length [] = length links)"
      by (simp add: main_def emit_def)
    then show ?thesis by (rule exI)
  next
    case False
    from download_each_runs [of h join links s1] obtain runs where
      "trace (snd (download_each h join links s1)) = trace s1 @ concat runs"
      and "list_all2 ?Q (take (length runs) links) runs"
      and "fst (download_each h join links s1) = Inr () \<longrightarrow> length runs = length links" by blast
    with False sc have "trace (snd (main b h join url s)) =
          trace (snd (scrape_pdf_links b url s)) @ concat runs
            @ (if links = [] then [Print NoLinks] else [])
        \<and> list_all2 ?Q (take (length runs) links) runs
        \<and> (fst (main b h join url s) = Inr () \<longrightarrow> length runs = length links)"
      by (simp add: main_def)
    then show ?thesis by (rule exI)
  qed
qed

theorem main_downloads_in_order_witness:
  "fst (scrape_pdf_links browser_two ''http://a.org'' s0) =
     Inr [''http://a.org/d/x.pdf'', ''http://a.org/y.pdf'']
   \<and> pdf_name_of join_backslash ''http://a.org/d/x.pdf'' = Inr (save_dir @ [CHR 0x5C] @ ''x.pdf'')
   \<and> pdf_name_of join_backslash ''http://a.org/y.pdf'' = Inr (save_dir @ [CHR 0x5C] @ ''y.pdf'')
   \<and> fst (main browser_two host_ok join_backslash ''http://a.org'' s0) = Inr ()
   \<and> filter (\<lambda>ev. is_Request ev \<or> is_Open ev)
        (trace (snd (main browser_two host_ok join_backslash ''http://a.org'' s0))) =
       [Request ''http://a.org/d/x.pdf'', Open (save_dir @ [CHR 0x5C] @ ''x.pdf''),
        Request ''http://a.org/y.pdf'', Open (save_dir @ [CHR 0x5C] @ ''y.pdf'')]
   \<and> (\<exists>runs. length runs = 2
         \<and> trace (snd (main browser_two host_ok join_backslash ''http://a.org'' s0)) =
             trace (snd (scrape_pdf_links browser_two ''http://a.org'' s0)) @ concat runs)"
proof -
  have links: "fst (scrape_pdf_links browser_two ''http://a.org'' s0) =
      Inr [''http://a.org/d/x.pdf'', ''http://a.org/y.pdf'']"
    by (simp add: scrape_pdf_links_def scrape_body_def browser_two_def s0_def Let_def emit_def
        truthy_def is_pdf_link_def str_lower_def str_in_def str_of_def lower_def lower_char_def
        print_links_def split: prod.splits)
  have seg1: "final_segment ''http://a.org/d/x.pdf'' = ''x.pdf''"
    and seg2: "final_segment ''http://a.org/y.pdf'' = ''y.pdf''"
    by (simp_all add: final_segment_def)
  have run: "scrape_pdf_links browser_two ''http://a.org'' s0 =
      (Inr [''http://a.org/d/x.pdf'', ''http://a.org/y.pdf''],
       snd (scrape_pdf_links browser_two ''http://a.org'' s0))"
    using links by (cases "scrape_pdf_links browser_two ''http://a.org'' s0") simp
  obtain s1 where s1: "snd (scrape_pdf_links browser_two ''http://a.org'' s0) = s1" by simp
  have dl: "download_pdf host_ok u p 3 s =
      (Inr (), s\<lparr>trace := trace s @ [Request u, Open p, Write p [1, 2], Write p [3],
                    Print (Downloaded p)],
                 fs := (fs s)(p \<mapsto> [1, 2, 3])\<rparr>)" for u p s
    by (simp add: download_pdf_def range_of_3 host_ok_def ok_response_def Let_def emit_def
        write_body_def append_file_def)
  have whole: "main browser_two host_ok join_backslash ''http://a.org'' s0 =
      download_each host_ok join_backslash [''http://a.org/d/x.pdf'', ''http://a.org/y.pdf''] s1"
    using run s1 by (simp add: main_def)
  have ok: "fst (main browser_two host_ok join_backslash ''http://a.org'' s0) = Inr ()"
    unfolding whole by (simp add: pdf_name_of_eq dl)
  have tr: "trace (snd (main browser_two host_ok join_backslash ''http://a.org'' s0)) =
      trace s1 @
       [Request ''http://a.org/d/x.pdf'', Open (save_dir @ [CHR 0x5C] @ ''x.pdf''),
        Write (save_dir @ [CHR 0x5C] @ ''x.pdf'') [1, 2], Write (save_dir @ [CHR 0x5C] @ ''x.pdf'') [3],
        Print (Downloaded (save_dir @ [CHR 0x5C] @ ''x.pdf'')),
        Request ''http://a.org/y.pdf'', Open (save_dir @ [CHR 0x5C] @ ''y.pdf''),
        Write (save_dir @ [CHR 0x5C] @ ''y.pdf'') [1, 2], Write (save_dir @ [CHR 0x5C] @ ''y.pdf'') [3],
        Print (Downloaded (save_dir @ [CHR 0x5C] @ ''y.pdf''))]"
    unfolding whole by (simp add: pdf_name_of_eq dl seg1 seg2 join_backslash_def)
  have quiet: "filter (\<lambda>ev. is_Request ev \<or> is_Open ev) (trace s1) = []"
    using s1 [symmetric]
    by (simp add: scrape_pdf_links_def scrape_body_def browser_two_def s0_def Let_def emit_def
        truthy_def is_pdf_link_def str_lower_def str_in_def str_of_def lower_def lower_char_def
        print_links_def split: prod.splits)
  from main_downloads_in_order [OF links, of join_backslash host_ok]
  obtain runs where
    a: "trace (snd (main browser_two host_ok join_backslash ''http://a.org'' s0)) =
          trace (snd (scrape_pdf_links browser_two ''http://a.org'' s0)) @ concat runs
            @ (if [''http://a.org/d/x.pdf'', ''http://a.org/y.pdf''] = [] then [Print NoLinks] else [])"
    and c: "fst (main browser_two host_ok join_backslash ''http://a.org'' s0) = Inr () \<longrightarrow>
          length runs = length [''http://a.org/d/x.pdf'', ''http://a.org/y.pdf'']"
    by blast
  from c ok have "length runs = 2" by simp
  moreover from a have
    "trace (snd (main browser_two host_ok join_backslash ''http://a.org'' s0)) =
       trace (snd (scrape_pdf_links browser_two ''http://a.org'' s0)) @ concat runs"
    by simp
  ultimately have "\<exists>runs. length runs = 2
       \<and> trace (snd (main browser_two host_ok join_backslash ''http://a.org'' s0)) =
           trace (snd (scrape_pdf_links browser_two ''http://a.org'' s0)) @ concat runs"
    by blast
  with links ok show ?thesis
    by (simp add: pdf_name_of_eq seg1 seg2 join_backslash_def tr quiet)
qed

end
